theory Spec2Isabelle
  imports Main "HOL-Library.List_Lexorder" "HOL-Library.Product_Lexorder" "HOL-Library.Word"
begin

section \<open>Python text\<close>

text \<open>
  A Python \<^verbatim>\<open>str\<close> is a sequence of Unicode code points; it is modelled as the list of
  their numbers.  \<open>ustr\<close> turns an ASCII literal into such a list; letters outside ASCII
  are written by their code point (\<open>252\<close> is u-umlaut, \<open>228\<close> a-umlaut, \<open>246\<close>
  o-umlaut, \<open>223\<close> sharp s).
\<close>

type_synonym ustring = "nat list"

definition ustr :: "string \<Rightarrow> ustring" where
  "ustr s = map of_char s"

text \<open>The characters \<^verbatim>\<open>str.strip()\<close> removes: the code points for which
  \<^verbatim>\<open>str.isspace()\<close> holds.\<close>

definition is_space :: "nat \<Rightarrow> bool" where
  "is_space c =
     ((9 \<le> c \<and> c \<le> 13) \<or> (28 \<le> c \<and> c \<le> 32) \<or> c = 133 \<or> c = 160 \<or> c = 5760 \<or>
      (8192 \<le> c \<and> c \<le> 8202) \<or> c = 8232 \<or> c = 8233 \<or> c = 8239 \<or> c = 8287 \<or> c = 12288)"

definition strip :: "ustring \<Rightarrow> ustring" where
  "strip s = rev (dropWhile is_space (rev (dropWhile is_space s)))"

text \<open>\<^verbatim>\<open>s.split("\n")\<close>: the pieces between line feeds (code point 10); never an empty
  list, so the last case of the inner \<open>case\<close> is not reached.\<close>

fun split_nl :: "ustring \<Rightarrow> ustring list" where
  "split_nl [] = [[]]"
| "split_nl (c # cs) =
     (if c = 10 then [] # split_nl cs
      else (case split_nl cs of l # ls \<Rightarrow> (c # l) # ls | [] \<Rightarrow> [[c]]))"

text \<open>\<^verbatim>\<open>line.split(": ", 1)\<close> where \<^verbatim>\<open>": " in line\<close>: the text before and after the first
  colon (58) followed by a blank (32); \<open>None\<close> where \<^verbatim>\<open>": " not in line\<close>.\<close>

fun split_sep :: "ustring \<Rightarrow> (ustring \<times> ustring) option" where
  "split_sep (c # d # cs) =
     (if c = 58 \<and> d = 32 then Some ([], cs)
      else map_option (\<lambda>(k, v). (c # k, v)) (split_sep (d # cs)))"
| "split_sep _ = None"

text \<open>\<^verbatim>\<open>str(count)\<close> for a count: its decimal digits.\<close>

fun str_nat :: "nat \<Rightarrow> ustring" where
  "str_nat n = (if n < 10 then [48 + n] else str_nat (n div 10) @ [48 + n mod 10])"

declare str_nat.simps [simp del]

text \<open>\<^verbatim>\<open>d.get(k, default)\<close>.\<close>

definition dict_get :: "('k \<rightharpoonup> 'v) \<Rightarrow> 'k \<Rightarrow> 'v \<Rightarrow> 'v" where
  "dict_get d k dflt = (case d k of None \<Rightarrow> dflt | Some v \<Rightarrow> v)"

section \<open>The answer parser\<close>

definition BEWERTUNG_KEY :: ustring where
  "BEWERTUNG_KEY = ustr ''Bitte geben Sie die Bewertung vom Zeugnis ein.''"

definition BEWERTUNG_RENAME :: "nat \<rightharpoonup> ustring" where
  "BEWERTUNG_RENAME = map_of [(1, ustr ''AV''), (2, ustr ''SV'')]"

definition BEWERTUNG_WERTE :: "ustring \<rightharpoonup> int" where
  "BEWERTUNG_WERTE = map_of
     [(ustr ''verdient besondere Anerkennung'', 10),
      (ustr ''entspricht den Erwartungen in vollem Umfang'', 20),
      (ustr ''entspricht den Erwartungen'', 30),
      (ustr ''entspricht den Erwartungen mit Einschr'' @ [228] @ ustr ''nkungen'', 40),
      (ustr ''entspricht nicht den Erwartungen'', 50)]"

text \<open>A value of the result list: the text of the line, or the number that
  \<open>BEWERTUNG_WERTE\<close> puts in its place.\<close>

datatype answer_value = Text ustring | Code int

type_synonym answer = "ustring \<times> answer_value"

text \<open>The loop of \<^verbatim>\<open>parse_answers\<close> over the lines, with the dictionary \<^verbatim>\<open>seen\<close> and
  the list \<^verbatim>\<open>results\<close> passed along.\<close>

fun parse_loop :: "(ustring \<rightharpoonup> nat) \<Rightarrow> answer list \<Rightarrow> ustring list \<Rightarrow> answer list" where
  "parse_loop seen results [] = results"
| "parse_loop seen results (l # ls) =
     (let line = strip l in
      if line = [] then parse_loop seen results ls
      else
        (case split_sep line of
           None \<Rightarrow> parse_loop seen results ls
         | Some (k, v) \<Rightarrow>
             (let key = strip k;
                  val = strip v;
                  count = dict_get seen key 0 + 1;
                  seen' = seen(key \<mapsto> count)
              in if key = BEWERTUNG_KEY
                 then parse_loop seen'
                        (results @
                          [(dict_get BEWERTUNG_RENAME count
                              (ustr ''Bewertung ('' @ str_nat count @ ustr '')''),
                            (case BEWERTUNG_WERTE val of Some n \<Rightarrow> Code n | None \<Rightarrow> Text val))])
                        ls
                 else parse_loop seen'
                        (results @
                          [(if count = 1 then key
                            else key @ ustr '' ('' @ str_nat count @ ustr '')'',
                            Text val)])
                        ls)))"

text \<open>\<^verbatim>\<open>parse_answers(field_content)\<close>; \<open>None\<close> is Python's \<^verbatim>\<open>None\<close>.\<close>

definition parse_answers :: "ustring option \<Rightarrow> answer list" where
  "parse_answers field_content =
     (case field_content of
        None \<Rightarrow> []
      | Some s \<Rightarrow>
          if s = [] \<or> strip s = [] then []
          else parse_loop Map.empty [] (split_nl s))"

text \<open>Vocabulary for the statements below, read off the loop: the pair (raw key, raw
  value) of a line, \<open>None\<close> for a line the loop skips; the pairs of a field in line
  order; the number of the occurrence of its key that the \<open>i\<close>-th pair is; and the column
  name and the value the loop gives to a key at a count.\<close>

definition line_entry :: "ustring \<Rightarrow> (ustring \<times> ustring) option" where
  "line_entry l =
     (let line = strip l in
      if line = [] then None
      else map_option (\<lambda>(k, v). (strip k, strip v)) (split_sep line))"

definition raw_entries :: "ustring list \<Rightarrow> (ustring \<times> ustring) list" where
  "raw_entries ls = List.map_filter line_entry ls"

definition field_entries :: "ustring option \<Rightarrow> (ustring \<times> ustring) list" where
  "field_entries field_content =
     (case field_content of None \<Rightarrow> [] | Some s \<Rightarrow> raw_entries (split_nl s))"

definition occurrence :: "(ustring \<times> ustring) list \<Rightarrow> nat \<Rightarrow> nat" where
  "occurrence kvs i = count_list (map fst (take (Suc i) kvs)) (fst (kvs ! i))"

definition column_name :: "ustring \<Rightarrow> nat \<Rightarrow> ustring" where
  "column_name key count =
     (if key = BEWERTUNG_KEY
      then dict_get BEWERTUNG_RENAME count (ustr ''Bewertung ('' @ str_nat count @ ustr '')'')
      else if count = 1 then key else key @ ustr '' ('' @ str_nat count @ ustr '')'')"

definition column_value :: "ustring \<Rightarrow> ustring \<Rightarrow> answer_value" where
  "column_value key val =
     (if key = BEWERTUNG_KEY
      then (case BEWERTUNG_WERTE val of Some n \<Rightarrow> Code n | None \<Rightarrow> Text val)
      else Text val)"

definition count_up :: "(ustring \<rightharpoonup> nat) \<Rightarrow> ustring \<Rightarrow> (ustring \<rightharpoonup> nat)" where
  "count_up seen k = seen(k \<mapsto> dict_get seen k 0 + 1)"

fun number_entries :: "(ustring \<rightharpoonup> nat) \<Rightarrow> (ustring \<times> ustring) list \<Rightarrow> answer list" where
  "number_entries seen [] = []"
| "number_entries seen ((k, v) # kvs) =
     (column_name k (dict_get seen k 0 + 1), column_value k v) #
     number_entries (count_up seen k) kvs"

text \<open>\<^verbatim>\<open>"\n".join(lines)\<close>, to build a field from its lines.\<close>

fun join_nl :: "ustring list \<Rightarrow> ustring" where
  "join_nl [] = []"
| "join_nl [l] = l"
| "join_nl (l # ls) = l @ 10 # join_nl ls"

text \<open>\<^verbatim>\<open>": " in line\<close>.\<close>

definition has_sep :: "ustring \<Rightarrow> bool" where
  "has_sep l = (split_sep l \<noteq> None)"

section \<open>Records and the fixed columns\<close>

text \<open>
  A record is a row of \<^verbatim>\<open>csv.DictReader\<close>: a dictionary from the names of the header
  to the cells of the row.  A cell is a text, or Python's \<^verbatim>\<open>None\<close> for a name the row
  is too short for; so \<open>rec k = None\<close> says that the record has no key \<open>k\<close>,
  \<open>rec k = Some None\<close> that it has \<^verbatim>\<open>None\<close> under \<open>k\<close>, and \<open>rec k = Some (Some s)\<close>
  that it has the text \<open>s\<close>.  \<^verbatim>\<open>rec.get(k, "")\<close> is \<open>dict_get rec k (Some [])\<close>.  (The list
  the reader puts under the key \<^verbatim>\<open>None\<close> for a row that is too long is never read by
  the program and is left out.)
\<close>

type_synonym csv_row = "ustring \<rightharpoonup> ustring option"

text \<open>The errors the program raises from the data it is given.\<close>

datatype error = ValueError | RuntimeError | AttributeError | IndexError | CsvError | OtherError

text \<open>\<^verbatim>\<open>v.strip()\<close> and \<^verbatim>\<open>v.lower()\<close> for a cell: \<^verbatim>\<open>None\<close> has no such method.\<close>

definition py_strip :: "ustring option \<Rightarrow> error + ustring" where
  "py_strip v = (case v of None \<Rightarrow> Inl AttributeError | Some s \<Rightarrow> Inr (strip s))"

definition py_lower :: "(ustring \<Rightarrow> ustring) \<Rightarrow> ustring option \<Rightarrow> error + ustring" where
  "py_lower lower v = (case v of None \<Rightarrow> Inl AttributeError | Some s \<Rightarrow> Inr (lower s))"

definition SCHUELER :: ustring where
  "SCHUELER = ustr ''Sch'' @ [252] @ ustr ''ler:in ''"

definition GRADES_COLUMN :: ustring where
  "GRADES_COLUMN = ustr ''BewerbungenZusatzfragenBeantworteteFragenPflicht''"

definition GROUP_COLUMN :: ustring where
  "GROUP_COLUMN =
     SCHUELER @ ustr ''Bildungsangebot Vollqualifizierter Schl'' @ [252] @ ustr ''ssel''"

definition NAME_COLUMN :: ustring where
  "NAME_COLUMN = SCHUELER @ ustr ''Name''"

definition VORNAME_COLUMN :: ustring where
  "VORNAME_COLUMN = SCHUELER @ ustr ''Vorname''"

definition FOERDERBEDARF_COLUMN :: ustring where
  "FOERDERBEDARF_COLUMN =
     SCHUELER @ ustr ''Sonderp'' @ [228] @ ustr ''dagogischer F'' @ [246] @ ustr ''rderbedarf''"

definition RANG_COLUMN :: ustring where
  "RANG_COLUMN = SCHUELER @ ustr ''Bewerbung Prioritaetsrang''"

definition BASE_FIELDS :: "(ustring \<times> ustring) list" where
  "BASE_FIELDS =
     [(SCHUELER @ ustr ''Anrede Bezeichnung'', ustr ''Anrede''),
      (NAME_COLUMN, ustr ''Name''),
      (VORNAME_COLUMN, ustr ''Vorname''),
      (SCHUELER @ ustr ''Geburtsdatum'', ustr ''Geburtsdatum''),
      (FOERDERBEDARF_COLUMN, ustr ''Sonderp'' @ [228] @ ustr ''d. F'' @ [246] @ ustr ''rderbedarf''),
      (RANG_COLUMN, ustr ''Rang'')]"

definition FG_EXTRA_FIELD :: "ustring \<times> ustring" where
  "FG_EXTRA_FIELD = (SCHUELER @ ustr ''abgebende Schule Schulgliederung'', ustr ''Schulgliederung'')"

definition FIELD_TRANSFORMS :: "ustring \<rightharpoonup> (ustring option \<Rightarrow> ustring option)" where
  "FIELD_TRANSFORMS =
     map_of [(FOERDERBEDARF_COLUMN, \<lambda>v. if v = Some (ustr ''J'') then Some (ustr ''X'') else Some [])]"

text \<open>\<^verbatim>\<open>xs.insert(i, x)\<close> for \<open>i \<ge> 0\<close>: at the end when \<open>i\<close> is beyond it.\<close>

definition list_insert :: "nat \<Rightarrow> 'a \<Rightarrow> 'a list \<Rightarrow> 'a list" where
  "list_insert i x xs = take i xs @ x # drop i xs"

definition startswith :: "ustring \<Rightarrow> ustring \<Rightarrow> bool" where
  "startswith s p = (take (length p) s = p)"

text \<open>The first lines of \<^verbatim>\<open>write_xlsx\<close>.\<close>

definition base_fields :: "bool \<Rightarrow> (ustring \<times> ustring) list" where
  "base_fields is_fg = (if is_fg then list_insert 4 FG_EXTRA_FIELD BASE_FIELDS else BASE_FIELDS)"

section \<open>Numbers read from text\<close>

text \<open>
  \<^verbatim>\<open>int(s)\<close> and \<^verbatim>\<open>float(s)\<close> of a text: blanks around, a sign, then digits with single
  underscores between them.  A code point below 128 is a digit when it is one of
  \<^verbatim>\<open>0\<close> to \<^verbatim>\<open>9\<close>; for the others the decimal value is the one of the Unicode database,
  which is the parameter \<open>dec\<close>.  \<open>None\<close> is \<^verbatim>\<open>ValueError\<close>.  (The bound on the number of
  digits that newer interpreters put on \<^verbatim>\<open>int\<close> is left out.)
\<close>

definition digit_of :: "(nat \<Rightarrow> nat option) \<Rightarrow> nat \<Rightarrow> nat option" where
  "digit_of dec c =
     (if 48 \<le> c \<and> c \<le> 57 then Some (c - 48) else if c < 128 then None else dec c)"

definition num_space :: "nat \<Rightarrow> bool" where
  "num_space c = ((9 \<le> c \<and> c \<le> 13) \<or> c = 32 \<or> (128 \<le> c \<and> is_space c))"

definition num_strip :: "ustring \<Rightarrow> ustring" where
  "num_strip s = rev (dropWhile num_space (rev (dropWhile num_space s)))"

definition is_sign :: "nat \<Rightarrow> bool" where
  "is_sign c = (c = 43 \<or> c = 45)"

definition drop_sign :: "ustring \<Rightarrow> ustring" where
  "drop_sign s = (case s of [] \<Rightarrow> [] | c # r \<Rightarrow> if is_sign c then r else s)"

definition is_negative :: "ustring \<Rightarrow> bool" where
  "is_negative s = (case s of [] \<Rightarrow> False | c # r \<Rightarrow> c = 45)"

fun digits_acc :: "(nat \<Rightarrow> nat option) \<Rightarrow> nat \<Rightarrow> ustring \<Rightarrow> nat option" where
  "digits_acc dec acc [] = Some acc"
| "digits_acc dec acc (c # cs) =
     (case digit_of dec c of
        Some d \<Rightarrow> digits_acc dec (10 * acc + d) cs
      | None \<Rightarrow>
          if c = 95
          then (case cs of
                  [] \<Rightarrow> None
                | c' # cs' \<Rightarrow>
                    (case digit_of dec c' of
                       Some d \<Rightarrow> digits_acc dec (10 * acc + d) cs'
                     | None \<Rightarrow> None))
          else None)"

definition digits_value :: "(nat \<Rightarrow> nat option) \<Rightarrow> ustring \<Rightarrow> nat option" where
  "digits_value dec s =
     (case s of
        [] \<Rightarrow> None
      | c # cs \<Rightarrow> (case digit_of dec c of Some d \<Rightarrow> digits_acc dec d cs | None \<Rightarrow> None))"

definition py_int :: "(nat \<Rightarrow> nat option) \<Rightarrow> ustring \<Rightarrow> int option" where
  "py_int dec s =
     (let t = num_strip s in
      case digits_value dec (drop_sign t) of
        None \<Rightarrow> None
      | Some n \<Rightarrow> Some (if is_negative t then - int n else int n))"

text \<open>What is left of a text after the digits (with their underscores) it starts with;
  \<open>None\<close> when it does not start with a digit.\<close>

fun skip_digits :: "(nat \<Rightarrow> nat option) \<Rightarrow> ustring \<Rightarrow> ustring" where
  "skip_digits dec [] = []"
| "skip_digits dec (c # cs) =
     (if digit_of dec c \<noteq> None then skip_digits dec cs
      else if c = 95 \<and> (case cs of [] \<Rightarrow> False | c' # cs' \<Rightarrow> digit_of dec c' \<noteq> None)
      then skip_digits dec cs
      else c # cs)"

definition digitpart :: "(nat \<Rightarrow> nat option) \<Rightarrow> ustring \<Rightarrow> ustring option" where
  "digitpart dec s =
     (case s of
        [] \<Rightarrow> None
      | c # cs \<Rightarrow> if digit_of dec c \<noteq> None then Some (skip_digits dec cs) else None)"

definition exponent_ok :: "(nat \<Rightarrow> nat option) \<Rightarrow> ustring \<Rightarrow> bool" where
  "exponent_ok dec s =
     (case s of
        [] \<Rightarrow> True
      | c # r \<Rightarrow> (c = 101 \<or> c = 69) \<and> digitpart dec (drop_sign r) = Some [])"

definition float_number :: "(nat \<Rightarrow> nat option) \<Rightarrow> ustring \<Rightarrow> bool" where
  "float_number dec s =
     (case digitpart dec s of
        Some r \<Rightarrow>
          (case r of
             [] \<Rightarrow> True
           | c # r' \<Rightarrow>
               if c = 46
               then (case digitpart dec r' of Some r'' \<Rightarrow> exponent_ok dec r'' | None \<Rightarrow> exponent_ok dec r')
               else exponent_ok dec r)
      | None \<Rightarrow>
          (case s of
             [] \<Rightarrow> False
           | c # r' \<Rightarrow>
               c = 46 \<and> (case digitpart dec r' of Some r'' \<Rightarrow> exponent_ok dec r'' | None \<Rightarrow> False)))"

definition ascii_lower :: "ustring \<Rightarrow> ustring" where
  "ascii_lower s = map (\<lambda>c. if 65 \<le> c \<and> c \<le> 90 then c + 32 else c) s"

text \<open>Whether \<^verbatim>\<open>float(s)\<close> returns: a number as above, or one of the words for infinity
  and not-a-number in any case of letters.  The floating-point value is not computed.\<close>

definition py_float_ok :: "(nat \<Rightarrow> nat option) \<Rightarrow> ustring \<Rightarrow> bool" where
  "py_float_ok dec s =
     (let u = drop_sign (num_strip s) in
      ascii_lower u = ustr ''inf'' \<or> ascii_lower u = ustr ''infinity'' \<or>
      ascii_lower u = ustr ''nan'' \<or> float_number dec u)"

section \<open>The spreadsheet\<close>

text \<open>The cell \<^verbatim>\<open>write_xlsx\<close> stores for a value: \<^verbatim>\<open>int(value)\<close>, else
  \<^verbatim>\<open>float(value)\<close> (kept as the text it was read from), else the value itself;
  \<open>CellNone\<close> is the cell of \<^verbatim>\<open>None\<close>.\<close>

datatype cell = CellInt int | CellFloat ustring | CellText ustring | CellNone

definition coerce :: "(nat \<Rightarrow> nat option) \<Rightarrow> answer_value \<Rightarrow> cell" where
  "coerce dec v =
     (case v of
        Code n \<Rightarrow> CellInt n
      | Text s \<Rightarrow>
          (case py_int dec s of
             Some n \<Rightarrow> CellInt n
           | None \<Rightarrow> if py_float_ok dec s then CellFloat s else CellText s))"

text \<open>\<^verbatim>\<open>dict(answers)\<close>: of two pairs with one key the later one stays.\<close>

definition dict_of :: "('k \<times> 'v) list \<Rightarrow> ('k \<rightharpoonup> 'v)" where
  "dict_of kvs = map_of (rev kvs)"

text \<open>The inner and the outer loop that collect \<^verbatim>\<open>all_answer_cols\<close>.\<close>

fun add_cols :: "ustring list \<Rightarrow> answer list \<Rightarrow> ustring list" where
  "add_cols cols [] = cols"
| "add_cols cols ((col_name, v) # answers) =
     add_cols (if col_name \<in> set cols then cols else cols @ [col_name]) answers"

fun collect_cols :: "ustring list \<Rightarrow> csv_row list \<Rightarrow> ustring list" where
  "collect_cols cols [] = cols"
| "collect_cols cols (rec # records) =
     collect_cols (add_cols cols (parse_answers (dict_get rec GRADES_COLUMN (Some [])))) records"

text \<open>One turn of the inner loop, and the column names of one record, for the
  statements below.\<close>

definition add_col :: "ustring list \<Rightarrow> ustring \<Rightarrow> ustring list" where
  "add_col cols col_name = (if col_name \<in> set cols then cols else cols @ [col_name])"

definition answer_names :: "csv_row \<Rightarrow> ustring list" where
  "answer_names rec = map fst (parse_answers (dict_get rec GRADES_COLUMN (Some [])))"

definition all_answer_cols :: "csv_row list \<Rightarrow> ustring list" where
  "all_answer_cols records = collect_cols [] records"

definition cell_of :: "ustring option \<Rightarrow> cell" where
  "cell_of v = (case v of None \<Rightarrow> CellNone | Some s \<Rightarrow> CellText s)"

definition base_cells :: "(ustring \<times> ustring) list \<Rightarrow> csv_row \<Rightarrow> cell list" where
  "base_cells fields rec =
     map (\<lambda>(csv_col, label).
            (case FIELD_TRANSFORMS csv_col of
               Some transform \<Rightarrow> cell_of (transform (dict_get rec csv_col (Some [])))
             | None \<Rightarrow> cell_of (dict_get rec csv_col (Some []))))
         fields"

definition answer_cells :: "(nat \<Rightarrow> nat option) \<Rightarrow> ustring list \<Rightarrow> csv_row \<Rightarrow> cell list" where
  "answer_cells dec cols rec =
     (let answer_dict = dict_of (parse_answers (dict_get rec GRADES_COLUMN (Some [])))
      in map (\<lambda>col_name. coerce dec (dict_get answer_dict col_name (Text []))) cols)"

record sheet =
  header_labels :: "ustring list"
  data_rows :: "cell list list"

text \<open>\<^verbatim>\<open>write_xlsx\<close>: the sheet it writes (labels of row 1, values of the rows from 2 on)
  and the number it returns.  (What the spreadsheet library refuses of the sheet, and
  whether the workbook is saved, is a parameter of the loop that calls the function.)\<close>

definition write_xlsx :: "(nat \<Rightarrow> nat option) \<Rightarrow> csv_row list \<Rightarrow> bool \<Rightarrow> sheet \<times> nat" where
  "write_xlsx dec records is_fg =
     (let fields = base_fields is_fg;
          cols = all_answer_cols records
      in (\<lparr>header_labels = map snd fields @ cols,
           data_rows = map (\<lambda>rec. base_cells fields rec @ answer_cells dec cols rec) records\<rparr>,
          length cols))"

text \<open>The ordered union of the spec: every element once, at the place where it is seen
  first.\<close>

function first_seen :: "'a list \<Rightarrow> 'a list" where
  "first_seen [] = []"
| "first_seen (x # xs) = x # first_seen (removeAll x xs)"
  by pat_completeness auto
termination
  by (relation "measure length") (auto simp: less_Suc_eq_le length_removeAll_less_eq)

section \<open>Sorting with a key that can raise\<close>

text \<open>
  \<^verbatim>\<open>sorted(xs, key=f)\<close> and \<^verbatim>\<open>xs.sort(key=f)\<close>: Python computes the key of every
  element first, in order, and the first key that raises ends the sort; then it sorts by
  the keys, keeping the order of elements with equal keys.  Tuples and texts compare
  lexicographically, texts by code points.
\<close>

fun keys_of :: "('a \<Rightarrow> error + 'k) \<Rightarrow> 'a list \<Rightarrow> error + 'k list" where
  "keys_of f [] = Inr []"
| "keys_of f (x # xs) =
     (case f x of
        Inl e \<Rightarrow> Inl e
      | Inr k \<Rightarrow> (case keys_of f xs of Inl e \<Rightarrow> Inl e | Inr ks \<Rightarrow> Inr (k # ks)))"

definition sorted_by :: "('a \<Rightarrow> error + 'k::linorder) \<Rightarrow> 'a list \<Rightarrow> error + 'a list" where
  "sorted_by f xs =
     (case keys_of f xs of
        Inl e \<Rightarrow> Inl e
      | Inr ks \<Rightarrow> Inr (map snd (sort_key fst (zip ks xs))))"

section \<open>The print table\<close>

text \<open>
  \<^verbatim>\<open>write_latex_pdf\<close> as far as the records decide what it does.  The key of a record
  is a triple; its first part is \<^verbatim>\<open>int(rank or 999)\<close>, which raises \<^verbatim>\<open>ValueError\<close>
  where \<^verbatim>\<open>int\<close> does; the other parts call \<^verbatim>\<open>lower\<close> on the names.  \<^verbatim>\<open>str.lower\<close> is the
  parameter \<open>lower\<close>.
\<close>

type_synonym pdf_key = "int \<times> ustring \<times> ustring"

definition rank_key :: "(nat \<Rightarrow> nat option) \<Rightarrow> csv_row \<Rightarrow> error + int" where
  "rank_key dec r =
     (case dict_get r RANG_COLUMN (Some []) of
        None \<Rightarrow> Inr 999
      | Some v \<Rightarrow>
          if v = [] then Inr 999
          else (case py_int dec v of None \<Rightarrow> Inl ValueError | Some n \<Rightarrow> Inr n))"

definition pdf_sort_key ::
  "(ustring \<Rightarrow> ustring) \<Rightarrow> (nat \<Rightarrow> nat option) \<Rightarrow> csv_row \<Rightarrow> error + pdf_key" where
  "pdf_sort_key lower dec r =
     (case rank_key dec r of
        Inl e \<Rightarrow> Inl e
      | Inr n \<Rightarrow>
          (case py_lower lower (dict_get r NAME_COLUMN (Some [])) of
             Inl e \<Rightarrow> Inl e
           | Inr name \<Rightarrow>
               (case py_lower lower (dict_get r VORNAME_COLUMN (Some [])) of
                  Inl e \<Rightarrow> Inl e
                | Inr vorname \<Rightarrow> Inr (n, name, vorname))))"

definition pdf_sorted ::
  "(ustring \<Rightarrow> ustring) \<Rightarrow> (nat \<Rightarrow> nat option) \<Rightarrow> csv_row list \<Rightarrow> error + csv_row list" where
  "pdf_sorted lower dec records = sorted_by (pdf_sort_key lower dec) records"

text \<open>The fields of which the loop over the sorted records takes the stripped text (through
  \<^verbatim>\<open>g\<close> or directly), in the order it does.\<close>

definition STRIPPED_FIELDS :: "bool \<Rightarrow> ustring list" where
  "STRIPPED_FIELDS is_fg =
     [NAME_COLUMN,
      VORNAME_COLUMN,
      SCHUELER @ ustr ''Geburtsdatum'',
      SCHUELER @ ustr ''Stra'' @ [223] @ ustr ''e'',
      SCHUELER @ ustr ''Hausnummer'',
      SCHUELER @ ustr ''Postleitzahl'',
      SCHUELER @ ustr ''Wohnort'',
      SCHUELER @ ustr ''Ortsteil'',
      SCHUELER @ ustr ''Telefonnummer Hauptnummer'',
      SCHUELER @ ustr ''Telefonnummer (weitere)'',
      SCHUELER @ ustr ''E-Mail-Adresse'',
      SCHUELER @ ustr ''Qualifikation h'' @ [246] @ ustr ''chster Schulabschluss K'' @ [252] @
        ustr ''rzel'',
      SCHUELER @ ustr ''Qualifikation letzter Schulabschluss K'' @ [252] @ ustr ''rzel'',
      RANG_COLUMN,
      SCHUELER @ ustr ''Bewerbung Unterlagen vollst'' @ [228] @ ustr ''ndig eingereicht'',
      FOERDERBEDARF_COLUMN] @
     (if is_fg then [SCHUELER @ ustr ''abgebende Schule Schulgliederung''] else [])"

definition BEZEICHNUNG_COLUMN :: ustring where
  "BEZEICHNUNG_COLUMN = SCHUELER @ ustr ''Bildungsgang Bezeichnung''"

definition row_strips :: "bool \<Rightarrow> csv_row \<Rightarrow> bool" where
  "row_strips is_fg rec =
     list_all (\<lambda>field. dict_get rec field (Some []) \<noteq> None) (STRIPPED_FIELDS is_fg)"

text \<open>
  The function sorts, makes a row of the table of each record in sorted order, and reads
  the label of the group from the first of them.  It returns the records in the order of
  the rows when it gets as far as to have the text of the document, and the error otherwise.
  (Whether writing the file and running the typesetter fail is a parameter of the loop
  that calls the function.)
\<close>

definition write_latex_pdf ::
  "(ustring \<Rightarrow> ustring) \<Rightarrow> (nat \<Rightarrow> nat option) \<Rightarrow> csv_row list \<Rightarrow> bool \<Rightarrow> error + csv_row list"
  where
  "write_latex_pdf lower dec records is_fg =
     (case pdf_sorted lower dec records of
        Inl e \<Rightarrow> Inl e
      | Inr rows \<Rightarrow>
          if \<not> list_all (row_strips is_fg) rows then Inl AttributeError
          else
            (case rows of
               [] \<Rightarrow> Inl IndexError
             | first # rest \<Rightarrow>
                 (case py_strip (dict_get first BEZEICHNUNG_COLUMN (Some [])) of
                    Inl e \<Rightarrow> Inl e
                  | Inr label \<Rightarrow> Inr rows)))"

text \<open>For the statements below: whether both names of a record are texts, the key of a
  record with the rank 999 where \<^verbatim>\<open>int\<close> raises and the empty text where a name is
  \<^verbatim>\<open>None\<close>, and whether the rank of a record is absent, empty or read by \<^verbatim>\<open>int\<close>.\<close>

definition text_of :: "ustring option \<Rightarrow> ustring" where
  "text_of v = (case v of None \<Rightarrow> [] | Some s \<Rightarrow> s)"

definition has_names :: "csv_row \<Rightarrow> bool" where
  "has_names r =
     (dict_get r NAME_COLUMN (Some []) \<noteq> None \<and> dict_get r VORNAME_COLUMN (Some []) \<noteq> None)"

definition name_pair :: "(ustring \<Rightarrow> ustring) \<Rightarrow> csv_row \<Rightarrow> ustring \<times> ustring" where
  "name_pair lower r =
     (lower (text_of (dict_get r NAME_COLUMN (Some []))),
      lower (text_of (dict_get r VORNAME_COLUMN (Some []))))"

definition pdf_key_of ::
  "(ustring \<Rightarrow> ustring) \<Rightarrow> (nat \<Rightarrow> nat option) \<Rightarrow> csv_row \<Rightarrow> pdf_key" where
  "pdf_key_of lower dec r =
     (case rank_key dec r of Inl e \<Rightarrow> 999 | Inr n \<Rightarrow> n,
      lower (text_of (dict_get r NAME_COLUMN (Some []))),
      lower (text_of (dict_get r VORNAME_COLUMN (Some []))))"

definition rank_parses :: "(nat \<Rightarrow> nat option) \<Rightarrow> csv_row \<Rightarrow> bool" where
  "rank_parses dec r =
     (case dict_get r RANG_COLUMN (Some []) of
        None \<Rightarrow> True
      | Some v \<Rightarrow> v = [] \<or> py_int dec v \<noteq> None)"

section \<open>Grouping\<close>

text \<open>
  \<^verbatim>\<open>process_csv\<close> after the records are read.  The dictionary \<^verbatim>\<open>groups\<close> is a list of
  pairs in the order the keys came in; the loop that fills it ends with
  \<^verbatim>\<open>AttributeError\<close> at a record that has \<^verbatim>\<open>None\<close> as its group field.
\<close>

definition group_key :: "csv_row \<Rightarrow> error + ustring" where
  "group_key rec =
     (case py_strip (dict_get rec GROUP_COLUMN (Some [])) of
        Inl e \<Rightarrow> Inl e
      | Inr k \<Rightarrow> Inr (if k = [] then ustr ''unbekannt'' else k))"

fun group_append :: "(ustring \<times> csv_row list) list \<Rightarrow> ustring \<Rightarrow> csv_row \<Rightarrow> (ustring \<times> csv_row list) list" where
  "group_append [] k rec = [(k, [rec])]"
| "group_append ((k', recs) # groups) k rec =
     (if k' = k then (k', recs @ [rec]) # groups else (k', recs) # group_append groups k rec)"

fun group_loop ::
  "(ustring \<times> csv_row list) list \<Rightarrow> csv_row list \<Rightarrow> error + (ustring \<times> csv_row list) list" where
  "group_loop groups [] = Inr groups"
| "group_loop groups (rec # records) =
     (case group_key rec of
        Inl e \<Rightarrow> Inl e
      | Inr k \<Rightarrow> group_loop (group_append groups k rec) records)"

text \<open>The key of \<^verbatim>\<open>group_records.sort\<close>.\<close>

definition name_key :: "(ustring \<Rightarrow> ustring) \<Rightarrow> csv_row \<Rightarrow> error + ustring \<times> ustring" where
  "name_key lower r =
     (case py_lower lower (dict_get r NAME_COLUMN (Some [])) of
        Inl e \<Rightarrow> Inl e
      | Inr name \<Rightarrow>
          (case py_lower lower (dict_get r VORNAME_COLUMN (Some [])) of
             Inl e \<Rightarrow> Inl e
           | Inr vorname \<Rightarrow> Inr (name, vorname)))"

text \<open>
  What lies outside the program and can end it: the spreadsheet library, which can refuse
  a value of the sheet or fail to save the workbook, and the file system and the call of
  the typesetter, which can fail when the document is written and compiled.  The two
  functions give the error that is raised for a group, if one is.
\<close>

record outside =
  workbook_error :: "ustring \<Rightarrow> sheet \<Rightarrow> error option"
  typeset_error :: "ustring \<Rightarrow> csv_row list \<Rightarrow> error option"

text \<open>
  The two calls in the body of the loop over the groups, \<^verbatim>\<open>write_xlsx\<close> and then
  \<^verbatim>\<open>write_latex_pdf\<close>, with the error that ends the body, if one does.
\<close>

definition write_group ::
  "(ustring \<Rightarrow> ustring) \<Rightarrow> (nat \<Rightarrow> nat option) \<Rightarrow> outside \<Rightarrow> ustring \<Rightarrow> csv_row list \<Rightarrow>
     error option" where
  "write_group lower dec out key recs =
     (case workbook_error out key (fst (write_xlsx dec recs (startswith key (ustr ''FG'')))) of
        Some e \<Rightarrow> Some e
      | None \<Rightarrow>
          (case write_latex_pdf lower dec recs (startswith key (ustr ''FG'')) of
             Inl e \<Rightarrow> Some e
           | Inr rows \<Rightarrow> typeset_error out key rows))"

text \<open>
  The loop over \<^verbatim>\<open>sorted(groups.items())\<close> (the keys of the groups differ, so the pairs
  are ordered by their keys).  For each group it sorts the records of the group in place
  and passes them on, first to \<^verbatim>\<open>write_xlsx\<close>, then to \<^verbatim>\<open>write_latex_pdf\<close>.  An error
  ends the loop and the function.  The model returns the groups that were passed on to
  \<^verbatim>\<open>write_xlsx\<close>, in that order, with what was passed on, and the error if there was
  one; without an error the function returns the list \<^verbatim>\<open>stats\<close> of these groups.
\<close>

record group_job =
  bildungsgang :: ustring
  is_fg :: bool
  group_records :: "csv_row list"

fun run_groups ::
  "(ustring \<Rightarrow> ustring) \<Rightarrow> (nat \<Rightarrow> nat option) \<Rightarrow> outside \<Rightarrow> (ustring \<times> csv_row list) list \<Rightarrow>
     group_job list \<times> error option" where
  "run_groups lower dec out [] = ([], None)"
| "run_groups lower dec out ((key, recs) # groups) =
     (case sorted_by (name_key lower) recs of
        Inl e \<Rightarrow> ([], Some e)
      | Inr sorted_recs \<Rightarrow>
          (let job = \<lparr>bildungsgang = key, is_fg = startswith key (ustr ''FG''),
                      group_records = sorted_recs\<rparr>
           in case write_group lower dec out key sorted_recs of
                Some e \<Rightarrow> ([job], Some e)
              | None \<Rightarrow>
                  (case run_groups lower dec out groups of (jobs, err) \<Rightarrow> (job # jobs, err))))"

definition process_csv ::
  "(ustring \<Rightarrow> ustring) \<Rightarrow> (nat \<Rightarrow> nat option) \<Rightarrow> outside \<Rightarrow> csv_row list \<Rightarrow>
     group_job list \<times> error option"
  where
  "process_csv lower dec out records =
     (case records of
        [] \<Rightarrow> ([], None)
      | first # rest \<Rightarrow>
          if first GRADES_COLUMN = None then ([], None)
          else
            (case group_loop [] records of
               Inl e \<Rightarrow> ([], Some e)
             | Inr groups \<Rightarrow> run_groups lower dec out (sort_key fst groups)))"

text \<open>The list \<^verbatim>\<open>stats\<close> of the groups, and whether \<^verbatim>\<open>process_csv\<close> skips the file.\<close>

definition stats_of :: "group_job list \<Rightarrow> (ustring \<times> nat) list" where
  "stats_of jobs = map (\<lambda>j. (bildungsgang j, length (group_records j))) jobs"

definition skipped :: "csv_row list \<Rightarrow> bool" where
  "skipped records = (case records of [] \<Rightarrow> True | first # rest \<Rightarrow> first GRADES_COLUMN = None)"

section \<open>Reading a file\<close>
























section \<open>Example inputs\<close>

definition three_grades :: "ustring option" where
  "three_grades =
     Some (join_nl
       [BEWERTUNG_KEY @ ustr '': entspricht den Erwartungen'',
        BEWERTUNG_KEY @ ustr '': gut'',
        ustr ''ohne Trenner'',
        BEWERTUNG_KEY @ ustr '':  verdient besondere Anerkennung ''])"

definition clash_field :: "ustring option" where
  "clash_field = Some (join_nl [ustr ''A: 1'', ustr ''A: 2'', ustr ''A (2): 3''])"

definition kunst_lines :: "ustring list" where
  "kunst_lines = [ustr ''Kunst: 3'', ustr ''ohne Trenner'', ustr '' Kunst : 4 '']"

definition zimmer :: csv_row where
  "zimmer = map_of
     [(GROUP_COLUMN, Some (ustr ''FG1'')),
      (GRADES_COLUMN,
         Some (join_nl [ustr ''Kunst: 3'', BEWERTUNG_KEY @ ustr '': entspricht den Erwartungen''])),
      (NAME_COLUMN, Some (ustr ''Zimmer'')),
      (VORNAME_COLUMN, Some (ustr ''Anna'')),
      (RANG_COLUMN, Some (ustr ''2''))]"

definition abel :: csv_row where
  "abel = map_of
     [(GROUP_COLUMN, Some (ustr '' FG1'')),
      (GRADES_COLUMN, Some (ustr ''Sport: gut'')),
      (NAME_COLUMN, Some (ustr ''abel'')),
      (VORNAME_COLUMN, Some (ustr ''Kai'')),
      (RANG_COLUMN, Some (ustr ''1''))]"

definition zimmer_two :: csv_row where
  "zimmer_two = map_of
     [(GROUP_COLUMN, Some (ustr ''FG1'')),
      (GRADES_COLUMN, Some []),
      (NAME_COLUMN, Some (ustr ''ZIMMER'')),
      (VORNAME_COLUMN, Some (ustr ''anna''))]"

definition blank_group :: csv_row where
  "blank_group = map_of
     [(GROUP_COLUMN, Some (ustr ''  '')),
      (GRADES_COLUMN, Some []),
      (NAME_COLUMN, Some (ustr ''Berg'')),
      (VORNAME_COLUMN, Some (ustr ''Eva''))]"

definition no_group :: csv_row where
  "no_group = map_of
     [(GRADES_COLUMN, Some []),
      (NAME_COLUMN, Some (ustr ''Cole'')),
      (VORNAME_COLUMN, Some (ustr ''Ben'')),
      (RANG_COLUMN, Some [])]"

definition bad_rank :: csv_row where
  "bad_rank = map_of
     [(GROUP_COLUMN, Some (ustr ''A'')),
      (GRADES_COLUMN, Some []),
      (NAME_COLUMN, Some (ustr ''Dorn'')),
      (VORNAME_COLUMN, Some (ustr ''Ida'')),
      (RANG_COLUMN, Some (ustr ''abc''))]"

definition none_rank :: csv_row where
  "none_rank = map_of
     [(NAME_COLUMN, Some (ustr ''Falk'')),
      (VORNAME_COLUMN, Some (ustr ''Jo'')),
      (RANG_COLUMN, None)]"

definition short_row :: csv_row where
  "short_row = map_of
     [(GRADES_COLUMN, Some []),
      (NAME_COLUMN, Some (ustr ''Ernst'')),
      (VORNAME_COLUMN, None),
      (GROUP_COLUMN, None)]"

definition example_records :: "csv_row list" where
  "example_records = [zimmer, blank_group, abel, zimmer_two, no_group]"

definition fg_job :: group_job where
  "fg_job =
     \<lparr>bildungsgang = ustr ''FG1'', is_fg = True, group_records = [abel, zimmer, zimmer_two]\<rparr>"

definition unbekannt_job :: group_job where
  "unbekannt_job =
     \<lparr>bildungsgang = ustr ''unbekannt'', is_fg = False, group_records = [blank_group, no_group]\<rparr>"


definition fg_records :: "csv_row list" where
  "fg_records = [abel, zimmer, zimmer_two]"




text \<open>Nothing outside the program raises an error.\<close>

definition quiet :: outside where
  "quiet = \<lparr>workbook_error = (\<lambda>key sheet. None), typeset_error = (\<lambda>key rows. None)\<rparr>"

text \<open>The spreadsheet library refuses the sheet of the group \<^verbatim>\<open>FG1\<close>.\<close>

definition refusing :: outside where
  "refusing = \<lparr>workbook_error = (\<lambda>key sheet. if key = ustr ''FG1'' then Some OtherError else None),
                 typeset_error = (\<lambda>key rows. None)\<rparr>"

section \<open>The answer parser: the loop as a numbering of the valid lines\<close>

lemma raw_entries_Nil [simp]: "raw_entries [] = []"
  by (simp add: raw_entries_def map_filter_simps)

lemma raw_entries_Cons:
  "raw_entries (l # ls) =
     (case line_entry l of None \<Rightarrow> raw_entries ls | Some kv \<Rightarrow> kv # raw_entries ls)"
  by (simp add: raw_entries_def map_filter_simps split: option.splits)

lemma dict_get_count_up:
  "dict_get (count_up seen k) k' 0 = (if k' = k then dict_get seen k 0 + 1 else dict_get seen k' 0)"
  by (simp add: count_up_def dict_get_def)

lemma parse_loop_number:
  "parse_loop seen results ls = results @ number_entries seen (raw_entries ls)"
proof (induction ls arbitrary: seen results)
  case Nil
  show ?case by simp
next
  case (Cons l ls)
  show ?case
  proof (cases "line_entry l")
    case None
    then have step: "parse_loop seen results (l # ls) = parse_loop seen results ls"
      by (auto simp: line_entry_def Let_def split: if_splits option.splits)
    show ?thesis
      unfolding step using None by (simp add: raw_entries_Cons Cons.IH)
  next
    case (Some kv)
    obtain k v where kv: "kv = (k, v)" by (cases kv)
    from Some kv obtain k0 v0 where
      ne: "strip l \<noteq> []" and sp: "split_sep (strip l) = Some (k0, v0)"
      and k: "k = strip k0" and v: "v = strip v0"
      by (auto simp: line_entry_def Let_def split: if_splits)
    have step: "parse_loop seen results (l # ls) =
      parse_loop (count_up seen k)
        (results @ [(column_name k (dict_get seen k 0 + 1), column_value k v)]) ls"
      using ne sp k v by (simp add: Let_def column_name_def column_value_def count_up_def)
    show ?thesis
      unfolding step using Some kv by (simp add: raw_entries_Cons Cons.IH)
  qed
qed

lemma length_number_entries [simp]: "length (number_entries seen kvs) = length kvs"
  by (induction kvs arbitrary: seen) auto

lemma number_entries_nth:
  "i < length kvs \<Longrightarrow>
   number_entries seen kvs ! i =
     (column_name (fst (kvs ! i))
        (dict_get seen (fst (kvs ! i)) 0 + count_list (map fst (take (Suc i) kvs)) (fst (kvs ! i))),
      column_value (fst (kvs ! i)) (snd (kvs ! i)))"
proof (induction kvs arbitrary: seen i)
  case Nil
  then show ?case by simp
next
  case (Cons kv kvs)
  obtain k v where kv: "kv = (k, v)" by (cases kv)
  show ?case
  proof (cases i)
    case 0
    then show ?thesis by (simp add: kv)
  next
    case (Suc j)
    with Cons.prems have j: "j < length kvs" by simp
    show ?thesis
      using Cons.IH [OF j, of "count_up seen k"]
      by (simp add: Suc kv dict_get_count_up)
  qed
qed

lemma strip_empty_iff: "strip s = [] \<longleftrightarrow> (\<forall>c\<in>set s. is_space c)"
proof
  assume "strip s = []"
  then have "\<forall>c\<in>set (dropWhile is_space s). is_space c"
    by (simp add: strip_def dropWhile_eq_Nil_conv)
  then have "dropWhile is_space s = []"
    by (metis hd_dropWhile list.set_sel(1))
  then show "\<forall>c\<in>set s. is_space c"
    by (simp add: dropWhile_eq_Nil_conv)
next
  assume "\<forall>c\<in>set s. is_space c"
  then have d: "dropWhile is_space s = []" by (induction s) auto
  show "strip s = []" by (simp only: strip_def d rev.simps dropWhile.simps)
qed

lemma split_nl_subset: "l \<in> set (split_nl s) \<Longrightarrow> set l \<subseteq> set s"
proof (induction s arbitrary: l)
  case Nil
  then show ?case by simp
next
  case (Cons c cs)
  show ?case
  proof (cases "split_nl cs")
    case Nil
    with Cons show ?thesis by (auto split: if_splits)
  next
    case (Cons a list)
    have a: "set a \<subseteq> set cs" and rest: "\<And>l'. l' \<in> set list \<Longrightarrow> set l' \<subseteq> set cs"
      using Cons.IH [of a] Cons.IH Cons by auto
    from Cons.prems Cons consider "l = []" | "l = c # a" | "l \<in> set (a # list)"
      by (auto split: if_splits)
    then show ?thesis
    proof cases
      case 1
      then show ?thesis by simp
    next
      case 2
      with a show ?thesis by auto
    next
      case 3
      with a rest show ?thesis by auto
    qed
  qed
qed

lemma raw_entries_blank:
  assumes "\<forall>l\<in>set ls. strip l = []"
  shows "raw_entries ls = []"
  using assms by (induction ls) (simp_all add: raw_entries_Cons line_entry_def)

lemma parse_answers_number:
  "parse_answers field_content = number_entries Map.empty (field_entries field_content)"
proof (cases field_content)
  case None
  then show ?thesis by (simp add: parse_answers_def field_entries_def)
next
  case (Some s)
  show ?thesis
  proof (cases "strip s = []")
    case True
    then have "\<forall>l\<in>set (split_nl s). strip l = []"
      using split_nl_subset by (fastforce simp: strip_empty_iff)
    then have "raw_entries (split_nl s) = []" by (rule raw_entries_blank)
    with True Some show ?thesis by (simp add: parse_answers_def field_entries_def)
  next
    case False
    then have "s \<noteq> []" by (auto simp: strip_def)
    with False Some show ?thesis
      by (simp add: parse_answers_def field_entries_def parse_loop_number)
  qed
qed

lemma parse_answers_nth:
  "i < length (field_entries fc) \<Longrightarrow>
   parse_answers fc ! i =
     (column_name (fst (field_entries fc ! i)) (occurrence (field_entries fc) i),
      column_value (fst (field_entries fc ! i)) (snd (field_entries fc ! i)))"
  by (simp add: parse_answers_number number_entries_nth occurrence_def dict_get_def)

lemma length_parse_answers: "length (parse_answers fc) = length (field_entries fc)"
  by (simp add: parse_answers_number)

lemma occurrence_pos: "i < length kvs \<Longrightarrow> 1 \<le> occurrence kvs i"
proof -
  assume i: "i < length kvs"
  then have "fst (kvs ! i) \<in> set (map fst (take (Suc i) kvs))"
    by (simp add: take_Suc_conv_app_nth)
  then have "count_list (map fst (take (Suc i) kvs)) (fst (kvs ! i)) \<noteq> 0"
    by (simp only: count_list_0_iff not_not)
  then show ?thesis by (simp add: occurrence_def)
qed

lemma occurrence_less:
  assumes "i < j" and "j < length kvs" and "fst (kvs ! i) = fst (kvs ! j)"
  shows "occurrence kvs i < occurrence kvs j"
proof -
  let ?k = "fst (kvs ! j)"
  let ?mid = "drop (Suc i) (take (Suc j) kvs)"
  have split: "take (Suc j) kvs = take (Suc i) kvs @ ?mid"
    using assms(1) by (metis Suc_le_mono append_take_drop_id less_imp_le_nat min.absorb1 take_take)
  have "kvs ! j \<in> set ?mid"
  proof -
    have "?mid ! (j - Suc i) = kvs ! j" using assms(1,2) by simp
    moreover have "j - Suc i < length ?mid" using assms(1,2) by simp
    ultimately show ?thesis by (metis nth_mem)
  qed
  then have "?k \<in> set (map fst ?mid)" by force
  then have "count_list (map fst ?mid) ?k \<noteq> 0"
    by (simp only: count_list_0_iff not_not)
  moreover have "count_list (map fst (take (Suc j) kvs)) ?k =
      count_list (map fst (take (Suc i) kvs)) ?k + count_list (map fst ?mid) ?k"
    by (subst split) simp
  ultimately show ?thesis using assms(3) by (simp add: occurrence_def)
qed

section \<open>The numbered names\<close>

lemma str_nat_not_Nil [simp]: "str_nat n \<noteq> []"
  by (subst str_nat.simps) simp

lemma str_nat_not_Nil' [simp]: "[] \<noteq> str_nat n"
  using str_nat_not_Nil [of n] by (simp only: not_sym not_False_eq_True)

lemma str_nat_small: "n < 10 \<Longrightarrow> str_nat n = [48 + n]"
  by (subst str_nat.simps) simp

lemma str_nat_large: "\<not> n < 10 \<Longrightarrow> str_nat n = str_nat (n div 10) @ [48 + n mod 10]"
  by (subst str_nat.simps) simp

lemma str_nat_inj: "str_nat m = str_nat n \<Longrightarrow> m = n"
proof (induction m arbitrary: n rule: str_nat.induct)
  case (1 m)
  show ?case
  proof (cases "m < 10")
    case m: True
    show ?thesis
    proof (cases "n < 10")
      case True
      with m "1.prems" show ?thesis by (simp add: str_nat_small)
    next
      case False
      with m "1.prems" show ?thesis by (simp add: str_nat_small str_nat_large)
    qed
  next
    case m: False
    show ?thesis
    proof (cases "n < 10")
      case True
      with m "1.prems" show ?thesis by (simp add: str_nat_small str_nat_large)
    next
      case False
      with m "1.prems" have "str_nat (m div 10) = str_nat (n div 10)" and "m mod 10 = n mod 10"
        by (simp_all add: str_nat_large)
      with "1.IH" [OF m] have "m div 10 = n div 10" and "m mod 10 = n mod 10" by simp_all
      then show ?thesis by (metis div_mult_mod_eq)
    qed
  qed
qed

lemma rename_one: "dict_get BEWERTUNG_RENAME (Suc 0) d = ustr ''AV''"
  by (simp add: dict_get_def BEWERTUNG_RENAME_def)

lemma rename_two: "dict_get BEWERTUNG_RENAME 2 d = ustr ''SV''"
  by (simp add: dict_get_def BEWERTUNG_RENAME_def)

lemma rename_other: "n \<noteq> 1 \<Longrightarrow> n \<noteq> 2 \<Longrightarrow> dict_get BEWERTUNG_RENAME n d = d"
  by (simp add: dict_get_def BEWERTUNG_RENAME_def)

lemma column_name_inj:
  assumes "column_name k m = column_name k n"
  shows "m = n"
proof (cases "k = BEWERTUNG_KEY")
  case True
  consider "m = 1" | "m = 2" | "m \<noteq> 1" "m \<noteq> 2" by blast
  then show ?thesis
  proof cases
    case 1
    consider "n = 1" | "n = 2" | "n \<noteq> 1" "n \<noteq> 2" by blast
    then show ?thesis
      using assms True 1
      by cases (simp_all add: column_name_def rename_one rename_two rename_other ustr_def)
  next
    case 2
    consider "n = 1" | "n = 2" | "n \<noteq> 1" "n \<noteq> 2" by blast
    then show ?thesis
      using assms True 2
      by cases (simp_all add: column_name_def rename_one rename_two rename_other ustr_def)
  next
    case 3
    consider "n = 1" | "n = 2" | "n \<noteq> 1" "n \<noteq> 2" by blast
    then show ?thesis
    proof cases
      case 1
      with assms True 3 show ?thesis
        by (simp add: column_name_def rename_one rename_other ustr_def)
    next
      case 2
      with assms True 3 show ?thesis
        by (simp add: column_name_def rename_two rename_other ustr_def)
    next
      case n: 3
      with assms True 3 have "str_nat m = str_nat n"
        by (simp add: column_name_def rename_other)
      then show ?thesis by (rule str_nat_inj)
    qed
  qed
next
  case False
  show ?thesis
  proof (cases "m = 1")
    case m: True
    show ?thesis
    proof (cases "n = 1")
      case True
      with m show ?thesis by simp
    next
      case False
      with assms \<open>k \<noteq> BEWERTUNG_KEY\<close> m show ?thesis
        by (simp add: column_name_def ustr_def)
    qed
  next
    case m: False
    show ?thesis
    proof (cases "n = 1")
      case True
      with assms \<open>k \<noteq> BEWERTUNG_KEY\<close> m show ?thesis
        by (simp add: column_name_def ustr_def)
    next
      case False
      with assms \<open>k \<noteq> BEWERTUNG_KEY\<close> m have "str_nat m = str_nat n"
        by (simp add: column_name_def)
      then show ?thesis by (rule str_nat_inj)
    qed
  qed
qed

section \<open>Lines and the separator\<close>

lemma split_sep_Some: "split_sep l = Some (k, v) \<Longrightarrow> l = k @ 58 # 32 # v"
proof (induction l arbitrary: k v rule: split_sep.induct)
  case (1 c d cs)
  then show ?case by (auto split: if_splits)
qed simp_all

lemma split_sep_append: "split_sep (x @ 58 # 32 # y) \<noteq> None"
proof (induction x)
  case Nil
  show ?case by simp
next
  case (Cons c x)
  obtain d cs where dcs: "x @ 58 # 32 # y = d # cs" by (cases "x @ 58 # 32 # y") simp_all
  with Cons show ?case by (auto simp: dcs)
qed

lemma has_sep_iff: "has_sep l \<longleftrightarrow> (\<exists>x y. l = x @ 58 # 32 # y)"
proof
  assume "has_sep l"
  then obtain k v where "split_sep l = Some (k, v)" by (auto simp: has_sep_def)
  then show "\<exists>x y. l = x @ 58 # 32 # y" by (blast dest: split_sep_Some)
next
  assume "\<exists>x y. l = x @ 58 # 32 # y"
  then obtain x y where "l = x @ 58 # 32 # y" by blast
  then show "has_sep l" by (simp only: has_sep_def) (rule split_sep_append)
qed

lemma strip_middle: "\<exists>a b. l = a @ strip l @ b"
proof -
  let ?m = "dropWhile is_space l"
  have "rev (rev ?m) = rev (takeWhile is_space (rev ?m) @ dropWhile is_space (rev ?m))"
    by (simp only: takeWhile_dropWhile_id)
  then have "?m = strip l @ rev (takeWhile is_space (rev ?m))"
    by (simp only: rev_rev_ident rev_append strip_def)
  moreover have "l = takeWhile is_space l @ ?m" by simp
  ultimately show ?thesis by metis
qed

lemma has_sep_strip: "has_sep (strip l) \<Longrightarrow> has_sep l"
proof -
  assume "has_sep (strip l)"
  then obtain x y where xy: "strip l = x @ 58 # 32 # y" by (auto simp: has_sep_iff)
  obtain a b where "l = a @ strip l @ b" using strip_middle by blast
  with xy have "l = (a @ x) @ 58 # 32 # (y @ b)" by simp
  then show ?thesis unfolding has_sep_iff by blast
qed

lemma line_entry_no_sep: "\<not> has_sep l \<Longrightarrow> line_entry l = None"
proof -
  assume "\<not> has_sep l"
  then have "\<not> has_sep (strip l)" using has_sep_strip by blast
  then have "split_sep (strip l) = None" by (simp only: has_sep_def not_not)
  then show ?thesis by (simp add: line_entry_def Let_def)
qed

lemma raw_entries_filter: "raw_entries (filter has_sep ls) = raw_entries ls"
  by (induction ls) (simp_all add: raw_entries_Cons line_entry_no_sep split: option.splits)

lemma split_nl_line: "10 \<notin> set l \<Longrightarrow> split_nl l = [l]"
  by (induction l) auto

lemma split_nl_append: "10 \<notin> set l \<Longrightarrow> split_nl (l @ 10 # rest) = l # split_nl rest"
  by (induction l) auto

lemma split_nl_join:
  "ls \<noteq> [] \<Longrightarrow> \<forall>l\<in>set ls. 10 \<notin> set l \<Longrightarrow> split_nl (join_nl ls) = ls"
proof (induction ls rule: join_nl.induct)
  case 1
  then show ?case by simp
next
  case (2 l)
  then show ?case by (simp add: split_nl_line)
next
  case (3 l l' ls)
  then show ?case by (simp add: split_nl_append)
qed

lemma field_entries_join:
  assumes "\<forall>l\<in>set ls. 10 \<notin> set l"
  shows "field_entries (Some (join_nl ls)) = raw_entries ls"
proof (cases "ls = []")
  case True
  then show ?thesis
    by (simp add: field_entries_def raw_entries_Cons line_entry_def strip_def)
next
  case False
  with assms show ?thesis by (simp add: field_entries_def split_nl_join)
qed

section \<open>The example fields, evaluated\<close>

lemmas text_eval =
  ustr_def strip_def is_space_def dict_get_def Let_def str_nat.simps has_sep_def
  BEWERTUNG_KEY_def BEWERTUNG_RENAME_def BEWERTUNG_WERTE_def

lemma three_grades_parse:
  "parse_answers three_grades =
     [(ustr ''AV'', Code 30), (ustr ''SV'', Text (ustr ''gut'')), (ustr ''Bewertung (3)'', Code 10)]"
  by (simp add: parse_answers_def three_grades_def text_eval)

lemma three_grades_entries:
  "field_entries three_grades =
     [(BEWERTUNG_KEY, ustr ''entspricht den Erwartungen''),
      (BEWERTUNG_KEY, ustr ''gut''),
      (BEWERTUNG_KEY, ustr ''verdient besondere Anerkennung'')]"
  by (simp add: field_entries_def raw_entries_Cons line_entry_def three_grades_def text_eval)

lemma clash_field_parse:
  "parse_answers clash_field =
     [(ustr ''A'', Text (ustr ''1'')), (ustr ''A (2)'', Text (ustr ''2'')),
      (ustr ''A (2)'', Text (ustr ''3''))]"
  by (simp add: parse_answers_def clash_field_def text_eval)

lemma clash_field_entries:
  "field_entries clash_field =
     [(ustr ''A'', ustr ''1''), (ustr ''A'', ustr ''2''), (ustr ''A (2)'', ustr ''3'')]"
  by (simp add: field_entries_def raw_entries_Cons line_entry_def clash_field_def text_eval)

lemma kunst_lines_parse:
  "parse_answers (Some (join_nl kunst_lines)) =
     [(ustr ''Kunst'', Text (ustr ''3'')), (ustr ''Kunst (2)'', Text (ustr ''4''))]"
  by (simp add: parse_answers_def kunst_lines_def text_eval)

lemma kunst_lines_entries:
  "field_entries (Some (join_nl kunst_lines)) =
     [(ustr ''Kunst'', ustr ''3''), (ustr ''Kunst'', ustr ''4'')]"
  by (simp add: field_entries_def raw_entries_Cons line_entry_def kunst_lines_def text_eval)

lemma kunst_lines_filter:
  "filter has_sep kunst_lines = [ustr ''Kunst: 3'', ustr '' Kunst : 4 '']"
  by (simp add: kunst_lines_def text_eval)

section \<open>Claims about the answer parser\<close>

text \<open>
  C1 (as the code has it).  When the raw key of a parsed line is the grading key and the
  line is the \<open>n\<close>-th occurrence of that key in the field with \<open>n \<ge> 3\<close>, the column name
  is the fixed word \<^verbatim>\<open>Bewertung\<close> followed by \<^verbatim>\<open> (n)\<close>, not the raw key followed by
  \<^verbatim>\<open> (n)\<close>.
\<close>

theorem grading_key_from_third:
  assumes "i < length (field_entries fc)"
    and "fst (field_entries fc ! i) = BEWERTUNG_KEY"
    and "3 \<le> occurrence (field_entries fc) i"
  shows "fst (parse_answers fc ! i) =
    ustr ''Bewertung ('' @ str_nat (occurrence (field_entries fc) i) @ ustr '')''"
proof -
  have "occurrence (field_entries fc) i \<noteq> 1" and "occurrence (field_entries fc) i \<noteq> 2"
    using assms(3) by simp_all
  then show ?thesis
    using assms(1,2) by (simp add: parse_answers_nth column_name_def rename_other)
qed

theorem grading_key_from_third_witness:
  "2 < length (field_entries three_grades) \<and>
   fst (field_entries three_grades ! 2) = BEWERTUNG_KEY \<and>
   3 \<le> occurrence (field_entries three_grades) 2 \<and>
   fst (parse_answers three_grades ! 2) = ustr ''Bewertung (3)''"
proof -
  have len: "2 < length (field_entries three_grades)"
    by (simp add: three_grades_entries)
  have key: "fst (field_entries three_grades ! 2) = BEWERTUNG_KEY"
    by (simp add: three_grades_entries)
  have occ: "occurrence (field_entries three_grades) 2 = 3"
    by (simp add: three_grades_entries occurrence_def)
  then have occ3: "3 \<le> occurrence (field_entries three_grades) 2" by simp
  show ?thesis
    using grading_key_from_third [OF len key occ3] len key occ
    by (simp add: ustr_def str_nat.simps)
qed

text \<open>
  C1 as the spec states it fails: for a field with the grading key on three lines the
  third column is named \<^verbatim>\<open>Bewertung (3)\<close>, which is not the raw key followed by
  \<^verbatim>\<open> (3)\<close>.
\<close>

theorem grading_key_third_not_raw_key:
  "fst (field_entries three_grades ! 2) = BEWERTUNG_KEY \<and>
   occurrence (field_entries three_grades) 2 = 3 \<and>
   fst (parse_answers three_grades ! 2) = ustr ''Bewertung (3)'' \<and>
   fst (parse_answers three_grades ! 2) \<noteq> BEWERTUNG_KEY @ ustr '' (3)''"
  by (simp add: three_grades_entries three_grades_parse occurrence_def)
     (simp add: ustr_def BEWERTUNG_KEY_def)

text \<open>
  C3 (as the code has it).  Two parsed lines of one field with the same raw key get
  different column names.  Lines with different raw keys can get the same name.
\<close>

theorem same_key_distinct_names:
  assumes "i < j" and "j < length (field_entries fc)"
    and "fst (field_entries fc ! i) = fst (field_entries fc ! j)"
  shows "fst (parse_answers fc ! i) \<noteq> fst (parse_answers fc ! j)"
proof
  assume eq: "fst (parse_answers fc ! i) = fst (parse_answers fc ! j)"
  let ?es = "field_entries fc"
  have i: "i < length ?es" using assms(1,2) by simp
  have "column_name (fst (?es ! j)) (occurrence ?es i) =
        column_name (fst (?es ! j)) (occurrence ?es j)"
    using eq i assms(2,3) by (simp add: parse_answers_nth)
  then have "occurrence ?es i = occurrence ?es j" by (rule column_name_inj)
  with occurrence_less [OF assms] show False by simp
qed

theorem same_key_distinct_names_witness:
  "(0::nat) < 1 \<and> 1 < length (field_entries clash_field) \<and>
   fst (field_entries clash_field ! 0) = fst (field_entries clash_field ! 1) \<and>
   fst (parse_answers clash_field ! 0) \<noteq> fst (parse_answers clash_field ! 1)"
proof -
  have len: "1 < length (field_entries clash_field)"
    by (simp add: clash_field_entries)
  have key: "fst (field_entries clash_field ! 0) = fst (field_entries clash_field ! 1)"
    by (simp add: clash_field_entries)
  show ?thesis
    using same_key_distinct_names [OF zero_less_one len key] len key by simp
qed

text \<open>
  C3 as the spec states it fails: the lines \<^verbatim>\<open>A: 1\<close>, \<^verbatim>\<open>A: 2\<close>, \<^verbatim>\<open>A (2): 3\<close> give the
  column name \<^verbatim>\<open>A (2)\<close> twice.
\<close>

theorem column_names_not_distinct:
  "map fst (parse_answers clash_field) = [ustr ''A'', ustr ''A (2)'', ustr ''A (2)''] \<and>
   \<not> distinct (map fst (parse_answers clash_field))"
  by (simp add: clash_field_parse)

text \<open>
  C5.  A parsed line whose raw key is the grading key gets the column name \<^verbatim>\<open>AV\<close> when
  it is the first occurrence of the key in the field and \<^verbatim>\<open>SV\<close> when it is the second;
  its value is the number 10, 20, 30, 40 or 50 when the trimmed value is the
  corresponding one of the five phrases, and the trimmed text itself otherwise.
\<close>

theorem grading_key_rename_and_code:
  assumes "i < length (field_entries fc)"
    and "fst (field_entries fc ! i) = BEWERTUNG_KEY"
  shows "(occurrence (field_entries fc) i = 1 \<longrightarrow> fst (parse_answers fc ! i) = ustr ''AV'') \<and>
    (occurrence (field_entries fc) i = 2 \<longrightarrow> fst (parse_answers fc ! i) = ustr ''SV'') \<and>
    snd (parse_answers fc ! i) =
      (let v = snd (field_entries fc ! i) in
       if v = ustr ''verdient besondere Anerkennung'' then Code 10
       else if v = ustr ''entspricht den Erwartungen in vollem Umfang'' then Code 20
       else if v = ustr ''entspricht den Erwartungen'' then Code 30
       else if v = ustr ''entspricht den Erwartungen mit Einschr'' @ [228] @ ustr ''nkungen''
         then Code 40
       else if v = ustr ''entspricht nicht den Erwartungen'' then Code 50
       else Text v)"
proof -
  have name1: "occurrence (field_entries fc) i = 1 \<longrightarrow> fst (parse_answers fc ! i) = ustr ''AV''"
    using assms by (simp add: parse_answers_nth column_name_def rename_one)
  have name2: "occurrence (field_entries fc) i = 2 \<longrightarrow> fst (parse_answers fc ! i) = ustr ''SV''"
    using assms by (simp add: parse_answers_nth column_name_def rename_two)
  have val: "snd (parse_answers fc ! i) = column_value BEWERTUNG_KEY (snd (field_entries fc ! i))"
    using assms by (simp add: parse_answers_nth)
  show ?thesis
    unfolding val using name1 name2
    by (simp add: column_value_def BEWERTUNG_WERTE_def Let_def)
qed

theorem grading_key_rename_and_code_witness:
  "occurrence (field_entries three_grades) 0 = 1 \<and>
   parse_answers three_grades ! 0 = (ustr ''AV'', Code 30) \<and>
   occurrence (field_entries three_grades) 1 = 2 \<and>
   parse_answers three_grades ! 1 = (ustr ''SV'', Text (ustr ''gut''))"
proof -
  have len0: "0 < length (field_entries three_grades)"
    and len1: "1 < length (field_entries three_grades)"
    by (simp_all add: three_grades_entries)
  have key0: "fst (field_entries three_grades ! 0) = BEWERTUNG_KEY"
    and key1: "fst (field_entries three_grades ! 1) = BEWERTUNG_KEY"
    by (simp_all add: three_grades_entries)
  have occ: "occurrence (field_entries three_grades) 0 = 1"
    "occurrence (field_entries three_grades) 1 = 2"
    by (simp_all add: three_grades_entries occurrence_def)
  have val: "snd (field_entries three_grades ! 0) = ustr ''entspricht den Erwartungen''"
    "snd (field_entries three_grades ! 1) = ustr ''gut''"
    by (simp_all add: three_grades_entries)
  have "fst (parse_answers three_grades ! 0) = ustr ''AV'' \<and>
        snd (parse_answers three_grades ! 0) = Code 30"
    using grading_key_rename_and_code [OF len0 key0] occ(1) val(1)
    by (simp add: ustr_def)
  moreover have "fst (parse_answers three_grades ! 1) = ustr ''SV'' \<and>
        snd (parse_answers three_grades ! 1) = Text (ustr ''gut'')"
    using grading_key_rename_and_code [OF len1 key1] occ(2) val(2)
    by (simp add: ustr_def)
  ultimately show ?thesis using occ by (simp add: prod_eq_iff)
qed

text \<open>
  C6.  An absent, empty or blank field gives the empty list.  Lines without the
  separator \<^verbatim>\<open>": "\<close> can be removed from a field without changing the result, so they
  count for no key.  The result has one entry for each remaining valid line, in line
  order; when the raw key of the \<open>i\<close>-th of them is not the grading key, the entry has
  the trimmed value as its value, and its name is the raw key when the line is the first
  occurrence of the key and the raw key followed by \<^verbatim>\<open> (n)\<close> when it is the \<open>n\<close>-th with
  \<open>n \<ge> 2\<close>.
\<close>

theorem plain_keys_numbered:
  "parse_answers None = [] \<and>
   (strip s = [] \<longrightarrow> parse_answers (Some s) = []) \<and>
   ((\<forall>l\<in>set ls. 10 \<notin> set l) \<longrightarrow>
      parse_answers (Some (join_nl ls)) = parse_answers (Some (join_nl (filter has_sep ls)))) \<and>
   length (parse_answers fc) = length (field_entries fc) \<and>
   (i < length (field_entries fc) \<and> fst (field_entries fc ! i) \<noteq> BEWERTUNG_KEY \<longrightarrow>
      parse_answers fc ! i =
        (if occurrence (field_entries fc) i = 1 then fst (field_entries fc ! i)
         else fst (field_entries fc ! i) @ ustr '' ('' @
              str_nat (occurrence (field_entries fc) i) @ ustr '')'',
         Text (snd (field_entries fc ! i))))"
proof -
  have none: "parse_answers None = []"
    by (simp add: parse_answers_def)
  have blank: "strip s = [] \<longrightarrow> parse_answers (Some s) = []"
    by (simp add: parse_answers_def)
  have drop: "(\<forall>l\<in>set ls. 10 \<notin> set l) \<longrightarrow>
      parse_answers (Some (join_nl ls)) = parse_answers (Some (join_nl (filter has_sep ls)))"
  proof
    assume nl: "\<forall>l\<in>set ls. 10 \<notin> set l"
    then have "\<forall>l\<in>set (filter has_sep ls). 10 \<notin> set l" by simp
    then have "field_entries (Some (join_nl (filter has_sep ls))) = raw_entries (filter has_sep ls)"
      by (rule field_entries_join)
    moreover have "field_entries (Some (join_nl ls)) = raw_entries ls"
      using nl by (rule field_entries_join)
    ultimately show
      "parse_answers (Some (join_nl ls)) = parse_answers (Some (join_nl (filter has_sep ls)))"
      by (simp add: parse_answers_number raw_entries_filter)
  qed
  have len: "length (parse_answers fc) = length (field_entries fc)"
    by (rule length_parse_answers)
  have nth: "i < length (field_entries fc) \<and> fst (field_entries fc ! i) \<noteq> BEWERTUNG_KEY \<longrightarrow>
      parse_answers fc ! i =
        (if occurrence (field_entries fc) i = 1 then fst (field_entries fc ! i)
         else fst (field_entries fc ! i) @ ustr '' ('' @
              str_nat (occurrence (field_entries fc) i) @ ustr '')'',
         Text (snd (field_entries fc ! i)))"
    by (simp add: parse_answers_nth column_name_def column_value_def)
  from none blank drop len nth show ?thesis by blast
qed

theorem plain_keys_numbered_witness:
  "parse_answers (Some (ustr ''  '')) = [] \<and>
   parse_answers (Some (join_nl kunst_lines)) =
     parse_answers (Some (join_nl [ustr ''Kunst: 3'', ustr '' Kunst : 4 ''])) \<and>
   length (parse_answers (Some (join_nl kunst_lines))) = 2 \<and>
   parse_answers (Some (join_nl kunst_lines)) ! 0 = (ustr ''Kunst'', Text (ustr ''3'')) \<and>
   parse_answers (Some (join_nl kunst_lines)) ! 1 = (ustr ''Kunst (2)'', Text (ustr ''4''))"
proof -
  have blank: "strip (ustr ''  '') = []"
    by (simp add: text_eval)
  have nl: "\<forall>l\<in>set kunst_lines. 10 \<notin> set l"
    by (simp add: kunst_lines_def ustr_def)
  have key: "ustr ''Kunst'' \<noteq> BEWERTUNG_KEY"
    by (simp add: ustr_def BEWERTUNG_KEY_def)
  let ?fc = "Some (join_nl kunst_lines)"
  have occ: "occurrence (field_entries ?fc) 0 = 1" "occurrence (field_entries ?fc) 1 = 2"
    by (simp_all add: kunst_lines_entries occurrence_def)
  have pre0: "0 < length (field_entries ?fc) \<and> fst (field_entries ?fc ! 0) \<noteq> BEWERTUNG_KEY"
    and pre1: "1 < length (field_entries ?fc) \<and> fst (field_entries ?fc ! 1) \<noteq> BEWERTUNG_KEY"
    using key by (simp_all add: kunst_lines_entries)
  note at0 = plain_keys_numbered [of "ustr ''  ''" kunst_lines ?fc 0]
  note at1 = plain_keys_numbered [of "ustr ''  ''" kunst_lines ?fc 1]
  have a: "parse_answers (Some (ustr ''  '')) = []"
    using at0 blank by blast
  have b: "parse_answers ?fc = parse_answers (Some (join_nl (filter has_sep kunst_lines)))"
    using at0 nl by blast
  have c: "length (parse_answers ?fc) = length (field_entries ?fc)"
    using at0 by blast
  have "parse_answers ?fc ! 0 =
      (if occurrence (field_entries ?fc) 0 = 1 then fst (field_entries ?fc ! 0)
       else fst (field_entries ?fc ! 0) @ ustr '' ('' @
            str_nat (occurrence (field_entries ?fc) 0) @ ustr '')'',
       Text (snd (field_entries ?fc ! 0)))"
    using at0 pre0 by blast
  then have d0: "parse_answers ?fc ! 0 = (ustr ''Kunst'', Text (ustr ''3''))"
    unfolding occ by (simp add: kunst_lines_entries)
  have "parse_answers ?fc ! 1 =
      (if occurrence (field_entries ?fc) 1 = 1 then fst (field_entries ?fc ! 1)
       else fst (field_entries ?fc ! 1) @ ustr '' ('' @
            str_nat (occurrence (field_entries ?fc) 1) @ ustr '')'',
       Text (snd (field_entries ?fc ! 1)))"
    using at1 pre1 by blast
  then have "parse_answers ?fc ! 1 =
      (ustr ''Kunst'' @ ustr '' ('' @ str_nat 2 @ ustr '')'', Text (ustr ''4''))"
    unfolding occ by (simp add: kunst_lines_entries)
  moreover have "ustr ''Kunst'' @ ustr '' ('' @ str_nat 2 @ ustr '')'' = ustr ''Kunst (2)''"
    by (simp add: ustr_def str_nat.simps)
  ultimately have d1: "parse_answers ?fc ! 1 = (ustr ''Kunst (2)'', Text (ustr ''4''))"
    by simp
  have c': "length (parse_answers ?fc) = 2"
    using c by (simp add: kunst_lines_entries)
  from a b c' d0 d1 show ?thesis
    by (simp only: kunst_lines_filter simp_thms)
qed

section \<open>Sorting with a key that can raise: when it returns and what\<close>

lemma keys_of_total: "\<forall>x\<in>set xs. f x = Inr (g x) \<Longrightarrow> keys_of f xs = Inr (map g xs)"
  by (induction xs) simp_all

lemma keys_of_Inr: "keys_of f xs = Inr ks \<Longrightarrow> \<forall>x\<in>set xs. \<exists>k. f x = Inr k"
  by (induction xs arbitrary: ks) (auto split: sum.splits)


lemma insort_key_decorated:
  "insort_key fst (f x, x) (map (\<lambda>y. (f y, y)) ys) = map (\<lambda>y. (f y, y)) (insort_key f x ys)"
  by (induction ys) auto

lemma sort_key_decorated:
  "sort_key fst (zip (map f xs) xs) = map (\<lambda>y. (f y, y)) (sort_key f xs)"
  by (induction xs) (simp_all add: insort_key_decorated)

lemma sorted_by_total:
  "\<forall>x\<in>set xs. f x = Inr (g x) \<Longrightarrow> sorted_by f xs = Inr (sort_key g xs)"
  using keys_of_total [of xs f g]
  by (simp add: sorted_by_def sort_key_decorated comp_def)

lemma sorted_by_Inr: "sorted_by f xs = Inr ys \<Longrightarrow> \<forall>x\<in>set xs. \<exists>k. f x = Inr k"
  by (auto simp: sorted_by_def split: sum.splits dest: keys_of_Inr)


lemma sorted_by_cases: "(\<exists>ys. sorted_by f xs = Inr ys) \<or> (\<exists>e. sorted_by f xs = Inl e)"
  by (cases "sorted_by f xs") auto

section \<open>The keys of the two sorts\<close>

lemma name_key_Inr: "name_key lower r = Inr k \<Longrightarrow> has_names r \<and> k = name_pair lower r"
  by (auto simp: name_key_def py_lower_def has_names_def name_pair_def text_of_def
      split: option.splits)

lemma name_key_has_names: "has_names r \<Longrightarrow> name_key lower r = Inr (name_pair lower r)"
  by (auto simp: name_key_def py_lower_def has_names_def name_pair_def text_of_def
      split: option.splits)

lemma name_key_Inl: "name_key lower r = Inl e \<Longrightarrow> e = AttributeError \<and> \<not> has_names r"
  by (auto simp: name_key_def py_lower_def has_names_def split: option.splits)

lemma sorted_by_name_key:
  assumes "sorted_by (name_key lower) recs = Inr rs"
  shows "rs = sort_key (name_pair lower) recs \<and> (\<forall>r\<in>set recs. has_names r)"
proof -
  from sorted_by_Inr [OF assms] have names: "\<forall>r\<in>set recs. has_names r"
    by (blast dest: name_key_Inr)
  then have "\<forall>r\<in>set recs. name_key lower r = Inr (name_pair lower r)"
    by (simp add: name_key_has_names)
  then have "sorted_by (name_key lower) recs = Inr (sort_key (name_pair lower) recs)"
    by (rule sorted_by_total)
  with assms names show ?thesis by simp
qed

lemma rank_key_cases:
  "rank_key dec r = (if rank_parses dec r then Inr (fst (pdf_key_of lower dec r)) else Inl ValueError)"
  by (auto simp: rank_key_def rank_parses_def pdf_key_of_def split: option.splits)

lemma pdf_sort_key_cases:
  "pdf_sort_key lower dec r =
     (if \<not> rank_parses dec r then Inl ValueError
      else if has_names r then Inr (pdf_key_of lower dec r)
      else Inl AttributeError)"
  by (auto simp: pdf_sort_key_def rank_key_def rank_parses_def pdf_key_of_def py_lower_def
      has_names_def text_of_def split: option.splits)

lemma pdf_sorted_ok:
  assumes "\<forall>r\<in>set records. has_names r" and "\<forall>r\<in>set records. rank_parses dec r"
  shows "pdf_sorted lower dec records = Inr (sort_key (pdf_key_of lower dec) records)"
  unfolding pdf_sorted_def
  by (rule sorted_by_total) (simp add: pdf_sort_key_cases assms)



section \<open>Grouping: what the dictionary of groups holds\<close>

lemma map_of_group_append:
  "map_of (group_append groups k rec) k' =
     (if k' = k then Some ((case map_of groups k of None \<Rightarrow> [] | Some recs \<Rightarrow> recs) @ [rec])
      else map_of groups k')"
  by (induction groups k rec rule: group_append.induct) auto

lemma keys_group_append:
  "set (map fst (group_append groups k rec)) = insert k (set (map fst groups))"
  by (induction groups k rec rule: group_append.induct) auto

lemma distinct_group_append:
  "distinct (map fst groups) \<Longrightarrow> distinct (map fst (group_append groups k rec))"
proof (induction groups k rec rule: group_append.induct)
  case (1 k rec)
  show ?case by simp
next
  case (2 k' recs groups k rec)
  then show ?case
    using keys_group_append [of groups k rec] by auto
qed

lemma distinct_group_loop:
  "group_loop groups records = Inr result \<Longrightarrow> distinct (map fst groups) \<Longrightarrow>
   distinct (map fst result)"
  by (induction records arbitrary: groups)
     (auto simp: distinct_group_append split: sum.splits)

lemma group_loop_Inr:
  "group_loop groups records = Inr result \<Longrightarrow> \<forall>r\<in>set records. \<exists>k. group_key r = Inr k"
  by (induction records arbitrary: groups) (auto split: sum.splits)


lemma map_of_group_loop:
  "group_loop groups records = Inr result \<Longrightarrow>
   map_of result k =
     (if map_of groups k = None \<and> filter (\<lambda>r. group_key r = Inr k) records = [] then None
      else Some ((case map_of groups k of None \<Rightarrow> [] | Some recs \<Rightarrow> recs) @
                 filter (\<lambda>r. group_key r = Inr k) records))"
proof (induction records arbitrary: groups)
  case Nil
  then show ?case by (cases "map_of groups k") simp_all
next
  case (Cons rec records)
  from Cons.prems obtain k0 where k0: "group_key rec = Inr k0"
    and rest: "group_loop (group_append groups k0 rec) records = Inr result"
    by (auto split: sum.splits)
  show ?case
    using Cons.IH [OF rest] k0
    by (cases "map_of groups k") (simp_all add: map_of_group_append)
qed

lemma group_loop_member:
  assumes "group_loop [] records = Inr groups" and "(k, recs) \<in> set groups"
  shows "recs = filter (\<lambda>r. group_key r = Inr k) records \<and> recs \<noteq> []"
proof -
  have "distinct (map fst groups)"
    using assms(1) by (rule distinct_group_loop) simp
  with assms(2) have "map_of groups k = Some recs"
    by simp
  then show ?thesis
    by (simp add: map_of_group_loop [OF assms(1)] split: if_splits)
qed

lemma group_loop_has_key:
  assumes "group_loop [] records = Inr groups" and "rec \<in> set records"
    and "group_key rec = Inr k"
  shows "(k, filter (\<lambda>r. group_key r = Inr k) records) \<in> set groups"
proof -
  from assms(2,3) have "filter (\<lambda>r. group_key r = Inr k) records \<noteq> []"
    by (auto simp: filter_empty_conv)
  then have "map_of groups k = Some (filter (\<lambda>r. group_key r = Inr k) records)"
    by (simp add: map_of_group_loop [OF assms(1)])
  then show ?thesis by (rule map_of_SomeD)
qed

section \<open>The loop over the groups: what is passed on\<close>

lemma run_groups_Cons:
  "run_groups lower dec out ((key, recs) # groups) =
     (case sorted_by (name_key lower) recs of
        Inl e \<Rightarrow> ([], Some e)
      | Inr rs \<Rightarrow>
          (case write_group lower dec out key rs of
             Some e \<Rightarrow>
               ([\<lparr>bildungsgang = key, is_fg = startswith key (ustr ''FG''),
                   group_records = rs\<rparr>], Some e)
           | None \<Rightarrow>
               (\<lparr>bildungsgang = key, is_fg = startswith key (ustr ''FG''),
                  group_records = rs\<rparr> # fst (run_groups lower dec out groups),
                snd (run_groups lower dec out groups))))"
  by (simp add: Let_def split: sum.splits option.splits prod.splits)

declare run_groups.simps(2) [simp del]

lemma run_groups_prefix:
  "\<exists>n. map bildungsgang (fst (run_groups lower dec out groups)) = take n (map fst groups)"
proof (induction groups)
  case Nil
  show ?case by simp
next
  case (Cons g groups)
  obtain key recs where g: "g = (key, recs)" by (cases g)
  from Cons obtain n where
    n: "map bildungsgang (fst (run_groups lower dec out groups)) = take n (map fst groups)"
    by blast
  show ?case
  proof (cases "sorted_by (name_key lower) recs")
    case (Inl e)
    then have "map bildungsgang (fst (run_groups lower dec out (g # groups))) =
        take 0 (map fst (g # groups))"
      by (simp add: g run_groups_Cons)
    then show ?thesis by blast
  next
    case sorted: (Inr rs)
    show ?thesis
    proof (cases "write_group lower dec out key rs")
      case (Some e)
      with sorted have "map bildungsgang (fst (run_groups lower dec out (g # groups))) =
          take 1 (map fst (g # groups))"
        by (simp add: g run_groups_Cons)
      then show ?thesis by blast
    next
      case None
      with sorted n have "map bildungsgang (fst (run_groups lower dec out (g # groups))) =
          take (Suc n) (map fst (g # groups))"
        by (simp add: g run_groups_Cons)
      then show ?thesis by blast
    qed
  qed
qed

lemma run_groups_member:
  "j \<in> set (fst (run_groups lower dec out groups)) \<Longrightarrow>
   \<exists>recs. (bildungsgang j, recs) \<in> set groups \<and>
          is_fg j = startswith (bildungsgang j) (ustr ''FG'') \<and>
          sorted_by (name_key lower) recs = Inr (group_records j)"
proof (induction groups)
  case Nil
  then show ?case by simp
next
  case (Cons g groups)
  obtain key recs where g: "g = (key, recs)" by (cases g)
  show ?case
  proof (cases "sorted_by (name_key lower) recs")
    case (Inl e)
    with Cons.prems show ?thesis by (simp add: g run_groups_Cons)
  next
    case sorted: (Inr rs)
    let ?job = "\<lparr>bildungsgang = key, is_fg = startswith key (ustr ''FG''), group_records = rs\<rparr>"
    have here: "\<exists>recs'. (bildungsgang ?job, recs') \<in> set (g # groups) \<and>
          is_fg ?job = startswith (bildungsgang ?job) (ustr ''FG'') \<and>
          sorted_by (name_key lower) recs' = Inr (group_records ?job)"
      using sorted by (auto simp: g)
    have "j = ?job \<or> j \<in> set (fst (run_groups lower dec out groups))"
      using Cons.prems sorted
      by (cases "write_group lower dec out key rs") (auto simp: g run_groups_Cons)
    then show ?thesis
    proof
      assume "j = ?job"
      with here show ?thesis by simp
    next
      assume "j \<in> set (fst (run_groups lower dec out groups))"
      from Cons.IH [OF this] show ?thesis by auto
    qed
  qed
qed

lemma run_groups_no_error:
  assumes "snd (run_groups lower dec out ((key, recs) # groups)) = None"
  obtains rs where
    "sorted_by (name_key lower) recs = Inr rs"
    and "write_group lower dec out key rs = None"
    and "snd (run_groups lower dec out groups) = None"
    and "fst (run_groups lower dec out ((key, recs) # groups)) =
      \<lparr>bildungsgang = key, is_fg = startswith key (ustr ''FG''), group_records = rs\<rparr> #
      fst (run_groups lower dec out groups)"
proof (cases "sorted_by (name_key lower) recs")
  case (Inl e)
  with assms show ?thesis by (simp add: run_groups_Cons)
next
  case sorted: (Inr rs)
  show ?thesis
  proof (cases "write_group lower dec out key rs")
    case (Some e)
    with assms sorted show ?thesis by (simp add: run_groups_Cons)
  next
    case None
    with assms sorted that [of rs] show ?thesis by (simp add: run_groups_Cons)
  qed
qed

lemma run_groups_complete:
  "snd (run_groups lower dec out groups) = None \<Longrightarrow>
   map bildungsgang (fst (run_groups lower dec out groups)) = map fst groups"
proof (induction groups)
  case Nil
  show ?case by simp
next
  case (Cons g groups)
  obtain key recs where g: "g = (key, recs)" by (cases g)
  from Cons.prems [unfolded g] show ?case
  proof (rule run_groups_no_error)
    fix rs
    assume "snd (run_groups lower dec out groups) = None"
      and "fst (run_groups lower dec out ((key, recs) # groups)) =
        \<lparr>bildungsgang = key, is_fg = startswith key (ustr ''FG''), group_records = rs\<rparr> #
        fst (run_groups lower dec out groups)"
    with Cons.IH show ?thesis by (simp add: g)
  qed
qed

lemma run_groups_written:
  "j \<in> set (fst (run_groups lower dec out groups)) \<Longrightarrow>
   snd (run_groups lower dec out groups) = None \<Longrightarrow>
   write_group lower dec out (bildungsgang j) (group_records j) = None"
proof (induction groups)
  case Nil
  then show ?case by simp
next
  case (Cons g groups)
  obtain key recs where g: "g = (key, recs)" by (cases g)
  from Cons.prems(2) [unfolded g] show ?case
  proof (rule run_groups_no_error)
    fix rs
    assume written: "write_group lower dec out key rs = None"
      and rest: "snd (run_groups lower dec out groups) = None"
      and jobs: "fst (run_groups lower dec out ((key, recs) # groups)) =
        \<lparr>bildungsgang = key, is_fg = startswith key (ustr ''FG''), group_records = rs\<rparr> #
        fst (run_groups lower dec out groups)"
    from Cons.prems(1) jobs have
      "j = \<lparr>bildungsgang = key, is_fg = startswith key (ustr ''FG''), group_records = rs\<rparr> \<or>
       j \<in> set (fst (run_groups lower dec out groups))"
      by (auto simp: g)
    then show ?thesis
    proof
      assume "j = \<lparr>bildungsgang = key, is_fg = startswith key (ustr ''FG''), group_records = rs\<rparr>"
      with written show ?thesis by auto
    next
      assume "j \<in> set (fst (run_groups lower dec out groups))"
      from Cons.IH [OF this rest] show ?thesis .
    qed
  qed
qed

lemma write_group_None:
  "write_group lower dec out key recs = None \<Longrightarrow>
   \<exists>rows. write_latex_pdf lower dec recs (startswith key (ustr ''FG'')) = Inr rows"
  by (auto simp: write_group_def split: option.splits sum.splits)

section \<open>The answer columns of a sheet\<close>

lemma set_first_seen [simp]: "set (first_seen xs) = set xs"
  by (induction xs rule: first_seen.induct) auto

lemma distinct_first_seen [simp]: "distinct (first_seen xs)"
  by (induction xs rule: first_seen.induct) auto

lemma add_cols_fold: "add_cols cols answers = fold (\<lambda>c cols. add_col cols c) (map fst answers) cols"
  by (induction cols answers rule: add_cols.induct) (simp_all add: add_col_def)

lemma collect_cols_fold:
  "collect_cols cols records =
     fold (\<lambda>c cols. add_col cols c) (concat (map answer_names records)) cols"
  by (induction cols records rule: collect_cols.induct)
     (simp_all add: add_cols_fold answer_names_def)

lemma fold_add_col:
  "fold (\<lambda>c cols. add_col cols c) xs cols = cols @ first_seen (filter (\<lambda>c. c \<notin> set cols) xs)"
proof (induction xs arbitrary: cols)
  case Nil
  show ?case by simp
next
  case (Cons x xs)
  show ?case
  proof (cases "x \<in> set cols")
    case True
    then have "add_col cols x = cols" by (simp add: add_col_def)
    with True show ?thesis by (simp add: Cons.IH)
  next
    case False
    then have step: "add_col cols x = cols @ [x]" by (simp add: add_col_def)
    have "removeAll x (filter (\<lambda>c. c \<notin> set cols) xs) =
        filter (\<lambda>c. c \<notin> set (cols @ [x])) xs"
      by (induction xs) auto
    with False step show ?thesis by (simp add: Cons.IH)
  qed
qed

lemma all_answer_cols_first_seen:
  "all_answer_cols records = first_seen (concat (map answer_names records))"
  by (simp add: all_answer_cols_def collect_cols_fold fold_add_col)

lemma dict_of_missing: "k \<notin> fst ` set kvs \<Longrightarrow> dict_of kvs k = None"
  by (simp add: dict_of_def map_of_eq_None_iff)

lemma coerce_empty: "coerce dec (Text []) = CellText []"
  by (simp add: coerce_def py_int_def py_float_ok_def num_strip_def drop_sign_def
      digits_value_def float_number_def digitpart_def ascii_lower_def ustr_def)

lemma length_base_cells [simp]: "length (base_cells fs rec) = length fs"
  by (simp add: base_cells_def)

lemma answer_cells_nth:
  "i < length cols \<Longrightarrow>
   answer_cells dec cols rec ! i =
     coerce dec (dict_get (dict_of (parse_answers (dict_get rec GRADES_COLUMN (Some []))))
       (cols ! i) (Text []))"
  by (simp add: answer_cells_def Let_def)

section \<open>What \<open>process_csv\<close> passes on\<close>

lemma process_csv_skipped: "skipped records \<Longrightarrow> process_csv lower dec out records = ([], None)"
  by (auto simp: skipped_def process_csv_def split: list.splits)

lemma process_csv_run:
  "\<not> skipped records \<Longrightarrow>
   process_csv lower dec out records =
     (case group_loop [] records of
        Inl e \<Rightarrow> ([], Some e)
      | Inr groups \<Rightarrow> run_groups lower dec out (sort_key fst groups))"
  by (auto simp: skipped_def process_csv_def split: list.splits)

lemma process_csv_jobs:
  assumes "j \<in> set (fst (process_csv lower dec out records))"
  obtains groups where "group_loop [] records = Inr groups"
    and "process_csv lower dec out records = run_groups lower dec out (sort_key fst groups)"
proof (cases "skipped records")
  case True
  with assms show ?thesis by (simp add: process_csv_skipped)
next
  case False
  show ?thesis
  proof (cases "group_loop [] records")
    case (Inl e)
    with False assms show ?thesis by (simp add: process_csv_run)
  next
    case (Inr groups)
    with False that [of groups] show ?thesis by (simp add: process_csv_run)
  qed
qed

lemma process_csv_member:
  assumes "j \<in> set (fst (process_csv lower dec out records))"
  shows "is_fg j = startswith (bildungsgang j) (ustr ''FG'') \<and>
    group_records j =
      sort_key (name_pair lower) (filter (\<lambda>r. group_key r = Inr (bildungsgang j)) records) \<and>
    (\<forall>r\<in>set (group_records j). has_names r)"
proof -
  from assms obtain groups where
    groups: "group_loop [] records = Inr groups"
    and run: "process_csv lower dec out records = run_groups lower dec out (sort_key fst groups)"
    by (rule process_csv_jobs)
  from assms run have "j \<in> set (fst (run_groups lower dec out (sort_key fst groups)))"
    by simp
  from run_groups_member [OF this] obtain recs where
    mem: "(bildungsgang j, recs) \<in> set groups"
    and fg: "is_fg j = startswith (bildungsgang j) (ustr ''FG'')"
    and sorted: "sorted_by (name_key lower) recs = Inr (group_records j)"
    by auto
  from group_loop_member [OF groups mem] have
    recs: "recs = filter (\<lambda>r. group_key r = Inr (bildungsgang j)) records"
    by simp
  from sorted_by_name_key [OF sorted] have
    "group_records j = sort_key (name_pair lower) recs" and "\<forall>r\<in>set recs. has_names r"
    by simp_all
  with fg recs show ?thesis by simp
qed

lemma process_csv_keys_sorted:
  "sorted_wrt (<) (map bildungsgang (fst (process_csv lower dec out records)))"
proof (cases "skipped records")
  case True
  then show ?thesis by (simp add: process_csv_skipped)
next
  case False
  show ?thesis
  proof (cases "group_loop [] records")
    case (Inl e)
    with False show ?thesis by (simp add: process_csv_run)
  next
    case (Inr groups)
    have "distinct (map fst groups)"
      using Inr by (rule distinct_group_loop) simp
    then have "distinct (map fst (sort_key fst groups))"
      by (simp add: distinct_map)
    moreover have "sorted (map fst (sort_key fst groups))"
      by (rule sorted_sort_key)
    ultimately have all: "sorted_wrt (<) (map fst (sort_key fst groups))"
      by (simp only: strict_sorted_iff)
    obtain n where "map bildungsgang (fst (run_groups lower dec out (sort_key fst groups))) =
        take n (map fst (sort_key fst groups))"
      using run_groups_prefix by blast
    with all have "sorted_wrt (<)
        (map bildungsgang (fst (run_groups lower dec out (sort_key fst groups))))"
      by (simp only: sorted_wrt_take)
    with False Inr show ?thesis by (simp add: process_csv_run)
  qed
qed

lemma process_csv_complete:
  assumes "\<not> skipped records" and "snd (process_csv lower dec out records) = None"
    and "rec \<in> set records"
  shows "\<exists>j\<in>set (fst (process_csv lower dec out records)).
    group_key rec = Inr (bildungsgang j) \<and> rec \<in> set (group_records j)"
proof (cases "group_loop [] records")
  case (Inl e)
  with assms(1,2) show ?thesis by (simp add: process_csv_run)
next
  case (Inr groups)
  with assms(1) have run:
    "process_csv lower dec out records = run_groups lower dec out (sort_key fst groups)"
    by (simp add: process_csv_run)
  from group_loop_Inr [OF Inr] assms(3) obtain k where k: "group_key rec = Inr k"
    by blast
  from group_loop_has_key [OF Inr assms(3) k] have "k \<in> set (map fst (sort_key fst groups))"
    by force
  moreover have "map bildungsgang (fst (process_csv lower dec out records)) =
      map fst (sort_key fst groups)"
    using assms(2) unfolding run by (rule run_groups_complete)
  ultimately have "k \<in> set (map bildungsgang (fst (process_csv lower dec out records)))"
    by simp
  then obtain j where j: "j \<in> set (fst (process_csv lower dec out records))"
    and kj: "bildungsgang j = k"
    by auto
  from process_csv_member [OF j] kj k assms(3) have "rec \<in> set (group_records j)"
    by simp
  with j k kj show ?thesis by blast
qed

section \<open>The reader: its errors, and texts it reads as they are\<close>













section \<open>The example records, evaluated\<close>

lemmas column_eval =
  GROUP_COLUMN_def GRADES_COLUMN_def NAME_COLUMN_def VORNAME_COLUMN_def RANG_COLUMN_def
  FOERDERBEDARF_COLUMN_def BEZEICHNUNG_COLUMN_def SCHUELER_def

lemmas int_eval =
  py_int_def num_strip_def num_space_def is_space_def drop_sign_def is_sign_def
  is_negative_def digits_value_def digit_of_def dict_get_def Let_def ustr_def

lemmas example_rows =
  zimmer_def abel_def zimmer_two_def blank_group_def no_group_def bad_rank_def

lemma example_group_keys:
  "group_key zimmer = Inr (ustr ''FG1'')"
  "group_key abel = Inr (ustr ''FG1'')"
  "group_key zimmer_two = Inr (ustr ''FG1'')"
  "group_key blank_group = Inr (ustr ''unbekannt'')"
  "group_key no_group = Inr (ustr ''unbekannt'')"
  "group_key bad_rank = Inr (ustr ''A'')"
  by (simp_all add: group_key_def py_strip_def example_rows column_eval text_eval)

lemma example_name_pairs:
  "name_pair ascii_lower zimmer = (ustr ''zimmer'', ustr ''anna'')"
  "name_pair ascii_lower abel = (ustr ''abel'', ustr ''kai'')"
  "name_pair ascii_lower zimmer_two = (ustr ''zimmer'', ustr ''anna'')"
  "name_pair ascii_lower blank_group = (ustr ''berg'', ustr ''eva'')"
  "name_pair ascii_lower no_group = (ustr ''cole'', ustr ''ben'')"
  "name_pair ascii_lower bad_rank = (ustr ''dorn'', ustr ''ida'')"
  by (simp_all add: name_pair_def text_of_def ascii_lower_def example_rows column_eval text_eval)

lemma example_no_None:
  "zimmer k \<noteq> Some None" "abel k \<noteq> Some None" "zimmer_two k \<noteq> Some None"
  "blank_group k \<noteq> Some None" "no_group k \<noteq> Some None" "bad_rank k \<noteq> Some None"
  by (simp_all add: example_rows)

lemma no_None_get:
  assumes "\<And>k. rec k \<noteq> Some None"
  shows "dict_get rec k (Some []) \<noteq> None"
proof (cases "rec k")
  case None
  then show ?thesis by (simp add: dict_get_def)
next
  case (Some v)
  with assms [of k] show ?thesis by (cases v) (simp_all add: dict_get_def)
qed

lemma no_None_has_names: "(\<And>k. rec k \<noteq> Some None) \<Longrightarrow> has_names rec"
  by (simp add: has_names_def no_None_get)

lemma no_None_row_strips: "(\<And>k. rec k \<noteq> Some None) \<Longrightarrow> row_strips fg rec"
  by (simp add: row_strips_def list_all_iff no_None_get)

lemma no_None_strips:
  assumes "\<And>k. rec k \<noteq> Some None"
  shows "\<exists>s. py_strip (dict_get rec k (Some [])) = Inr s"
proof -
  have "dict_get rec k (Some []) \<noteq> None"
    using assms by (rule no_None_get)
  then show ?thesis
    by (cases "dict_get rec k (Some [])") (auto simp: py_strip_def)
qed

lemma write_latex_pdf_texts:
  assumes "records \<noteq> []" and "\<And>r k. r \<in> set records \<Longrightarrow> r k \<noteq> Some None"
    and "\<forall>r\<in>set records. rank_parses dec r"
  shows "write_latex_pdf lower dec records fg = Inr (sort_key (pdf_key_of lower dec) records)"
proof -
  let ?rows = "sort_key (pdf_key_of lower dec) records"
  have "\<forall>r\<in>set records. has_names r"
    using assms(2) by (blast intro: no_None_has_names)
  then have sorted: "pdf_sorted lower dec records = Inr ?rows"
    using assms(3) by (rule pdf_sorted_ok)
  have strips: "list_all (row_strips fg) ?rows"
    using assms(2) by (simp add: list_all_iff no_None_row_strips)
  have "length ?rows = length records" by (rule length_sort)
  with assms(1) obtain first rest where rows: "?rows = first # rest"
    by (cases ?rows) auto
  then have "first \<in> set records"
    by (metis list.set_intros(1) set_sort)
  with assms(2) no_None_strips [of first BEZEICHNUNG_COLUMN] obtain label where
    "py_strip (dict_get first BEZEICHNUNG_COLUMN (Some [])) = Inr label"
    by blast
  with sorted strips rows show ?thesis
    by (simp add: write_latex_pdf_def)
qed

lemma example_rank_parses:
  "rank_parses (\<lambda>c. None) zimmer"
  "rank_parses (\<lambda>c. None) abel"
  "rank_parses (\<lambda>c. None) zimmer_two"
  "rank_parses (\<lambda>c. None) blank_group"
  "rank_parses (\<lambda>c. None) no_group"
  "rank_parses (\<lambda>c. None) none_rank"
  "\<not> rank_parses (\<lambda>c. None) bad_rank"
  by (simp_all add: rank_parses_def example_rows none_rank_def column_eval int_eval)


lemma example_groups:
  "group_loop [] example_records =
     Inr [(ustr ''FG1'', [zimmer, abel, zimmer_two]), (ustr ''unbekannt'', [blank_group, no_group])]"
  by (simp add: example_records_def example_group_keys) (simp add: ustr_def)

lemma example_not_skipped: "\<not> skipped example_records"
  by (simp add: skipped_def example_records_def zimmer_def column_eval ustr_def)

lemma example_sorts:
  "sorted_by (name_key ascii_lower) [zimmer, abel, zimmer_two] = Inr [abel, zimmer, zimmer_two]"
  "sorted_by (name_key ascii_lower) [blank_group, no_group] = Inr [blank_group, no_group]"
  "sorted_by (name_key ascii_lower) [bad_rank] = Inr [bad_rank]"
proof -
  have names: "name_key ascii_lower r = Inr (name_pair ascii_lower r)"
    if "\<And>k. r k \<noteq> Some None" for r
    using that by (intro name_key_has_names no_None_has_names)
  have "sorted_by (name_key ascii_lower) [zimmer, abel, zimmer_two] =
      Inr (sort_key (name_pair ascii_lower) [zimmer, abel, zimmer_two])"
    by (rule sorted_by_total) (simp add: names example_no_None)
  then show "sorted_by (name_key ascii_lower) [zimmer, abel, zimmer_two] =
      Inr [abel, zimmer, zimmer_two]"
    by (simp add: example_name_pairs) (simp add: ustr_def)
  have "sorted_by (name_key ascii_lower) [blank_group, no_group] =
      Inr (sort_key (name_pair ascii_lower) [blank_group, no_group])"
    by (rule sorted_by_total) (simp add: names example_no_None)
  then show "sorted_by (name_key ascii_lower) [blank_group, no_group] =
      Inr [blank_group, no_group]"
    by (simp add: example_name_pairs) (simp add: ustr_def)
  have "sorted_by (name_key ascii_lower) [bad_rank] =
      Inr (sort_key (name_pair ascii_lower) [bad_rank])"
    by (rule sorted_by_total) (simp add: names example_no_None)
  then show "sorted_by (name_key ascii_lower) [bad_rank] = Inr [bad_rank]"
    by simp
qed

lemma example_pdfs:
  "\<exists>rows. write_latex_pdf ascii_lower (\<lambda>c. None) [abel, zimmer, zimmer_two] True = Inr rows"
  "\<exists>rows. write_latex_pdf ascii_lower (\<lambda>c. None) [blank_group, no_group] False = Inr rows"
  by (rule exI, rule write_latex_pdf_texts;
      auto simp: example_no_None example_rank_parses)+

lemma example_run:
  "process_csv ascii_lower (\<lambda>c. None) quiet example_records = ([fg_job, unbekannt_job], None)"
proof -
  from example_pdfs obtain rows1 rows2 where
    "write_latex_pdf ascii_lower (\<lambda>c. None) [abel, zimmer, zimmer_two] True = Inr rows1"
    and "write_latex_pdf ascii_lower (\<lambda>c. None) [blank_group, no_group] False = Inr rows2"
    by blast
  moreover
  have fg: "startswith (ustr ''FG1'') (ustr ''FG'')" "\<not> startswith (ustr ''unbekannt'') (ustr ''FG'')"
    by (simp_all add: startswith_def ustr_def)
  ultimately have
    pdf1: "write_group ascii_lower (\<lambda>c. None) quiet (ustr ''FG1'') [abel, zimmer, zimmer_two] = None"
    and pdf2: "write_group ascii_lower (\<lambda>c. None) quiet (ustr ''unbekannt'') [blank_group, no_group] =
      None"
    by (simp_all add: write_group_def quiet_def)
  have le: "ustr ''FG1'' \<le> ustr ''unbekannt''"
    by (simp add: ustr_def)
  then have order: "sort_key fst
      [(ustr ''FG1'', [zimmer, abel, zimmer_two]), (ustr ''unbekannt'', [blank_group, no_group])] =
      [(ustr ''FG1'', [zimmer, abel, zimmer_two]), (ustr ''unbekannt'', [blank_group, no_group])]"
    by simp
  show ?thesis
    unfolding process_csv_run [OF example_not_skipped] example_groups
    by (simp add: le run_groups_Cons example_sorts fg pdf1 pdf2 fg_job_def unbekannt_job_def)
qed


lemma short_row_raises:
  "short_row GROUP_COLUMN = Some None"
  "group_key short_row = Inl AttributeError"
  "process_csv lower dec out [short_row] = ([], Some AttributeError)"
proof -
  show none: "short_row GROUP_COLUMN = Some None"
    by (simp add: short_row_def column_eval ustr_def)
  then show key: "group_key short_row = Inl AttributeError"
    by (simp add: group_key_def py_strip_def dict_get_def)
  have "\<not> skipped [short_row]"
    by (simp add: skipped_def short_row_def)
  from process_csv_run [OF this] key
  show "process_csv lower dec out [short_row] = ([], Some AttributeError)"
    by simp
qed

lemma refused_run:
  "process_csv ascii_lower (\<lambda>c. None) refusing example_records = ([fg_job], Some OtherError)"
proof -
  have refused: "write_group ascii_lower (\<lambda>c. None) refusing (ustr ''FG1'')
      [abel, zimmer, zimmer_two] = Some OtherError"
    by (simp add: write_group_def refusing_def)
  have fg: "startswith (ustr ''FG1'') (ustr ''FG'')"
    by (simp add: startswith_def ustr_def)
  have le: "ustr ''FG1'' \<le> ustr ''unbekannt''"
    by (simp add: ustr_def)
  show ?thesis
    unfolding process_csv_run [OF example_not_skipped] example_groups
    by (simp add: le run_groups_Cons example_sorts fg refused fg_job_def)
qed

section \<open>Claims about grouping\<close>




text \<open>
  C8.  The groups are passed on in strictly ascending order of the group key (texts
  compared lexicographically by code points).  The records of a group that is passed on
  are the records of the file with that group key, sorted by the pair (lower-cased
  surname, lower-cased given name); records of the group with the same pair are in the
  order they have in the file.  When the file is not skipped and nothing raises an error,
  every record of the file is in the group of its key.
\<close>

theorem groups_ascending_and_stable:
  "sorted_wrt (<) (map bildungsgang (fst (process_csv lower dec out records))) \<and>
   (\<forall>j\<in>set (fst (process_csv lower dec out records)).
      (\<forall>r\<in>set (group_records j). name_key lower r = Inr (name_pair lower r)) \<and>
      sorted (map (name_pair lower) (group_records j)) \<and>
      length (group_records j) =
        length (filter (\<lambda>r. group_key r = Inr (bildungsgang j)) records) \<and>
      (\<forall>key. filter (\<lambda>r. name_pair lower r = key) (group_records j) =
              filter (\<lambda>r. name_pair lower r = key)
                (filter (\<lambda>r. group_key r = Inr (bildungsgang j)) records))) \<and>
   (\<not> skipped records \<and> snd (process_csv lower dec out records) = None \<longrightarrow>
      (\<forall>rec\<in>set records. \<exists>j\<in>set (fst (process_csv lower dec out records)).
         group_key rec = Inr (bildungsgang j) \<and> rec \<in> set (group_records j)))"
proof -
  have keys: "sorted_wrt (<) (map bildungsgang (fst (process_csv lower dec out records)))"
    by (rule process_csv_keys_sorted)
  have job: "(\<forall>r\<in>set (group_records j). name_key lower r = Inr (name_pair lower r)) \<and>
      sorted (map (name_pair lower) (group_records j)) \<and>
      length (group_records j) =
        length (filter (\<lambda>r. group_key r = Inr (bildungsgang j)) records) \<and>
      (\<forall>key. filter (\<lambda>r. name_pair lower r = key) (group_records j) =
              filter (\<lambda>r. name_pair lower r = key)
                (filter (\<lambda>r. group_key r = Inr (bildungsgang j)) records))"
    if "j \<in> set (fst (process_csv lower dec out records))" for j
  proof -
    from process_csv_member [OF that] have
      recs: "group_records j =
         sort_key (name_pair lower) (filter (\<lambda>r. group_key r = Inr (bildungsgang j)) records)"
      and names: "\<forall>r\<in>set (group_records j). has_names r"
      by simp_all
    from names have "\<forall>r\<in>set (group_records j). name_key lower r = Inr (name_pair lower r)"
      by (simp add: name_key_has_names)
    moreover have "sorted (map (name_pair lower) (group_records j)) \<and>
      length (group_records j) =
        length (filter (\<lambda>r. group_key r = Inr (bildungsgang j)) records) \<and>
      (\<forall>key. filter (\<lambda>r. name_pair lower r = key) (group_records j) =
              filter (\<lambda>r. name_pair lower r = key)
                (filter (\<lambda>r. group_key r = Inr (bildungsgang j)) records))"
      unfolding recs by (simp only: sorted_sort_key length_sort sort_key_stable simp_thms)
    ultimately show ?thesis by blast
  qed
  have all: "\<forall>rec\<in>set records. \<exists>j\<in>set (fst (process_csv lower dec out records)).
         group_key rec = Inr (bildungsgang j) \<and> rec \<in> set (group_records j)"
    if "\<not> skipped records" and "snd (process_csv lower dec out records) = None"
    using process_csv_complete [OF that] by blast
  from keys job all show ?thesis by blast
qed

theorem groups_ascending_and_stable_witness:
  "fg_job \<in> set (fst (process_csv ascii_lower (\<lambda>c. None) quiet example_records)) \<and>
   map bildungsgang (fst (process_csv ascii_lower (\<lambda>c. None) quiet example_records)) =
     [ustr ''FG1'', ustr ''unbekannt''] \<and>
   sorted_wrt (<) (map bildungsgang (fst (process_csv ascii_lower (\<lambda>c. None) quiet example_records))) \<and>
   group_records fg_job = [abel, zimmer, zimmer_two] \<and>
   sorted (map (name_pair ascii_lower) (group_records fg_job)) \<and>
   filter (\<lambda>r. name_pair ascii_lower r = (ustr ''zimmer'', ustr ''anna'')) (group_records fg_job) =
     filter (\<lambda>r. name_pair ascii_lower r = (ustr ''zimmer'', ustr ''anna''))
       (filter (\<lambda>r. group_key r = Inr (bildungsgang fg_job)) example_records) \<and>
   \<not> skipped example_records \<and>
   snd (process_csv ascii_lower (\<lambda>c. None) quiet example_records) = None \<and>
   (\<exists>j\<in>set (fst (process_csv ascii_lower (\<lambda>c. None) quiet example_records)).
      group_key no_group = Inr (bildungsgang j) \<and> no_group \<in> set (group_records j))"
proof -
  have mem: "fg_job \<in> set (fst (process_csv ascii_lower (\<lambda>c. None) quiet example_records))"
    by (simp add: example_run)
  have keys: "map bildungsgang (fst (process_csv ascii_lower (\<lambda>c. None) quiet example_records)) =
      [ustr ''FG1'', ustr ''unbekannt'']"
    by (simp add: example_run fg_job_def unbekannt_job_def)
  have recs: "group_records fg_job = [abel, zimmer, zimmer_two]"
    by (simp add: fg_job_def)
  have run: "snd (process_csv ascii_lower (\<lambda>c. None) quiet example_records) = None"
    by (simp add: example_run)
  have rec: "no_group \<in> set example_records"
    by (simp add: example_records_def)
  from groups_ascending_and_stable [of ascii_lower "\<lambda>c. None" quiet example_records]
    mem keys recs run rec example_not_skipped
  show ?thesis by blast
qed



section \<open>Claims about the sheet and the print table\<close>

lemma example_answer_names:
  "answer_names abel = [ustr ''Sport'']"
  "answer_names zimmer = [ustr ''Kunst'', ustr ''AV'']"
  "answer_names zimmer_two = []"
  by (simp_all add: answer_names_def abel_def zimmer_def zimmer_two_def column_eval
      parse_answers_def text_eval)

lemma example_answer_cols:
  "first_seen (concat (map answer_names fg_records)) = [ustr ''Sport'', ustr ''Kunst'', ustr ''AV'']"
  by (simp add: fg_records_def example_answer_names) (simp add: ustr_def)

text \<open>
  C7.  The answer columns of a sheet are the column names of the records given to
  \<^verbatim>\<open>write_xlsx\<close> (the sorted records of the group), each once, in the order in which
  they are first seen when the records are gone through in the order given and the
  entries of a record in line order.  In the row of a record, the cell of an answer
  column that is not among the record's column names holds the empty text.
\<close>

theorem answer_columns_first_seen:
  "all_answer_cols records = first_seen (concat (map answer_names records)) \<and>
   distinct (all_answer_cols records) \<and>
   set (all_answer_cols records) = (\<Union>rec\<in>set records. set (answer_names rec)) \<and>
   snd (write_xlsx dec records fg) = length (all_answer_cols records) \<and>
   (k < length records \<and> i < length (all_answer_cols records) \<and>
    all_answer_cols records ! i \<notin> set (answer_names (records ! k)) \<longrightarrow>
      data_rows (fst (write_xlsx dec records fg)) ! k ! (length (base_fields fg) + i) =
        CellText [])"
proof -
  have cols: "all_answer_cols records = first_seen (concat (map answer_names records))"
    by (rule all_answer_cols_first_seen)
  have dist: "distinct (all_answer_cols records)"
    by (simp add: cols)
  have elems: "set (all_answer_cols records) = (\<Union>rec\<in>set records. set (answer_names rec))"
    by (simp add: cols)
  have count: "snd (write_xlsx dec records fg) = length (all_answer_cols records)"
    by (simp add: write_xlsx_def Let_def)
  have cell: "data_rows (fst (write_xlsx dec records fg)) ! k ! (length (base_fields fg) + i) =
      CellText []"
    if k: "k < length records" and i: "i < length (all_answer_cols records)"
      and missing: "all_answer_cols records ! i \<notin> set (answer_names (records ! k))"
  proof -
    let ?rec = "records ! k"
    let ?answers = "parse_answers (dict_get ?rec GRADES_COLUMN (Some []))"
    have row: "data_rows (fst (write_xlsx dec records fg)) ! k =
        base_cells (base_fields fg) ?rec @ answer_cells dec (all_answer_cols records) ?rec"
      using k by (simp add: write_xlsx_def Let_def)
    from missing have "dict_of ?answers (all_answer_cols records ! i) = None"
      by (intro dict_of_missing) (simp add: answer_names_def)
    then have "answer_cells dec (all_answer_cols records) ?rec ! i = coerce dec (Text [])"
      using i by (simp add: answer_cells_nth dict_get_def)
    then show ?thesis
      by (simp add: row nth_append coerce_empty)
  qed
  from cols dist elems count cell show ?thesis by blast
qed

theorem answer_columns_first_seen_witness:
  "all_answer_cols fg_records = [ustr ''Sport'', ustr ''Kunst'', ustr ''AV''] \<and>
   answer_names (fg_records ! 0) = [ustr ''Sport''] \<and>
   data_rows (fst (write_xlsx (\<lambda>c. None) fg_records True)) ! 0 ! (length (base_fields True) + 1) =
     CellText []"
proof -
  note at = answer_columns_first_seen [of fg_records "\<lambda>c. None" True 0 1]
  have cols: "all_answer_cols fg_records = [ustr ''Sport'', ustr ''Kunst'', ustr ''AV'']"
    using at example_answer_cols by simp
  have names: "answer_names (fg_records ! 0) = [ustr ''Sport'']"
    by (simp add: fg_records_def example_answer_names)
  have pre: "0 < length fg_records \<and> 1 < length (all_answer_cols fg_records) \<and>
      all_answer_cols fg_records ! 1 \<notin> set (answer_names (fg_records ! 0))"
    unfolding cols names by (simp add: fg_records_def ustr_def)
  from at pre cols names show ?thesis by blast
qed






section \<open>The claim about reading\<close>








end
